theory Spec2Isabelle
  imports Main "HOL-Library.Word" "HOL-Library.List_Lexorder" "HOL-Library.Multiset"
begin

unbundle bit_operations_syntax

section \<open>JavaScript strings and objects\<close>

text \<open>
  A JavaScript string is a sequence of UTF-16 code units. Comparison of two strings (the
  default comparison of \<open>Array.prototype.sort\<close>) is lexicographic on the code units,
  a proper prefix being smaller: this is the order of \<open>HOL-Library.List_Lexorder\<close> over
  the unsigned order of \<open>16 word\<close>.
\<close>

type_synonym code_unit = "16 word"
type_synonym jstring = "code_unit list"

definition js :: "string \<Rightarrow> jstring" where
  "js s = map (\<lambda>c. of_nat (of_char c)) s"

text \<open>\<open>Array.prototype.join\<close> on an array of strings.\<close>

fun join :: "jstring \<Rightarrow> jstring list \<Rightarrow> jstring" where
  "join sep [] = []"
| "join sep [x] = x"
| "join sep (x # y # ys) = x @ sep @ join sep (y # ys)"

text \<open>
  Number-to-string conversion of a non-negative integer, as string concatenation applies it
  to the counter of \<open>ListParameter.serialize\<close>: the decimal digits without leading
  zeros. (JavaScript prints integers below \<open>10^21\<close> this way; an array has fewer than
  \<open>2^32\<close> elements.)
\<close>

definition digit :: "nat \<Rightarrow> code_unit" where
  "digit d = of_nat (48 + d)"

fun num_to_string :: "nat \<Rightarrow> jstring" where
  "num_to_string n = (if n < 10 then [digit n] else num_to_string (n div 10) @ [digit (n mod 10)])"

declare num_to_string.simps [simp del]

text \<open>
  A \<open>Dictionary<string>\<close> is a plain object with string values. It is modelled by the
  list of its own properties in the order in which \<open>Object.keys\<close>, \<open>for-in\<close> and hence
  \<open>_.keys\<close>, \<open>_.each\<close> and \<open>_.extend\<close> enumerate them: the array indices (canonical
  decimal strings up to \<open>2^32 - 2\<close>) in ascending numeric order first, then every other
  key in the order of its creation.
\<close>

type_synonym dictionary = "(jstring \<times> jstring) list"

definition digits_value :: "jstring \<Rightarrow> nat" where
  "digits_value k = foldl (\<lambda>a c. 10 * a + (unat c - 48)) 0 k"

definition is_array_index :: "jstring \<Rightarrow> bool" where
  "is_array_index k \<longleftrightarrow> k = num_to_string (digits_value k) \<and> digits_value k \<le> 4294967294"

definition before_index :: "jstring \<Rightarrow> jstring \<times> jstring \<Rightarrow> bool" where
  "before_index k p \<longleftrightarrow> is_array_index (fst p) \<and> digits_value (fst p) < digits_value k"

text \<open>
  The assignment \<open>obj[k] = v\<close> of a string \<open>v\<close>. An existing own property keeps its place
  and takes the new value; a new one is created. The key \<open>__proto__\<close> is not a property
  of a plain object but the accessor of \<open>Object.prototype\<close>, whose setter ignores a value
  that is neither an object nor null: the assignment changes nothing.
\<close>

definition obj_set :: "dictionary \<Rightarrow> jstring \<Rightarrow> jstring \<Rightarrow> dictionary" where
  "obj_set obj k v =
     (if k = js ''__proto__'' then obj
      else if k \<in> set (map fst obj) then
        map (\<lambda>p. if fst p = k then (k, v) else p) obj
      else if is_array_index k then
        takeWhile (before_index k) obj @ [(k, v)] @ dropWhile (before_index k) obj
      else obj @ [(k, v)])"

text \<open>
  The read \<open>obj[k]\<close> of a key: \<open>None\<close> is \<open>undefined\<close>; \<open>to_string\<close> is the
  conversion a string operation applies to the value read.
\<close>

definition obj_get :: "dictionary \<Rightarrow> jstring \<Rightarrow> jstring option" where
  "obj_get obj k = map_of obj k"

definition to_string :: "jstring option \<Rightarrow> jstring" where
  "to_string v = (case v of None \<Rightarrow> js ''undefined'' | Some s \<Rightarrow> s)"

text \<open>\<open>_.keys(obj)\<close>: the own enumerable keys, in enumeration order.\<close>

definition obj_keys :: "dictionary \<Rightarrow> jstring list" where
  "obj_keys obj = map fst obj"

text \<open>\<open>_.extend(obj, source)\<close>: assigns every property of \<open>source\<close> to \<open>obj\<close>.\<close>

definition obj_extend :: "dictionary \<Rightarrow> dictionary \<Rightarrow> dictionary" where
  "obj_extend obj source = foldl (\<lambda>acc p. obj_set acc (fst p) (snd p)) obj source"

section \<open>Parameters\<close>

text \<open>
  A \<open>moment.Moment\<close> belongs to the moment library; the client only calls
  \<open>toISOString()\<close> on it, so a moment is represented by the string this call returns.
\<close>

datatype moment = Moment (toISOString: jstring)

datatype parameter =
    StringParameter jstring jstring
  | TimestampParameter jstring moment
  | ListParameter jstring "jstring list"

text \<open>\<open>ListParameter.push\<close>.\<close>

fun push :: "parameter \<Rightarrow> jstring \<Rightarrow> parameter" where
  "push (ListParameter key vals) v = ListParameter key (vals @ [v])"
| "push p v = p"

text \<open>
  The loop \<open>_.each(this.values, ...)\<close> of \<open>ListParameter.serialize\<close>, with the counter
  \<open>count\<close> (here \<open>count'\<close>) and the object \<open>result\<close> it updates.
\<close>

fun each_value :: "jstring \<Rightarrow> jstring list \<Rightarrow> nat \<Rightarrow> dictionary \<Rightarrow> dictionary" where
  "each_value key [] count' result = result"
| "each_value key (v # vs) count' result =
     each_value key vs (count' + 1) (obj_set result (key @ js ''.'' @ num_to_string (count' + 1)) v)"

fun serialize :: "parameter \<Rightarrow> dictionary" where
  "serialize (StringParameter key val) = obj_set [] key val"
| "serialize (TimestampParameter key val) = obj_set [] key (toISOString val)"
| "serialize (ListParameter key vals) = each_value key vals 0 []"

section \<open>Requests\<close>

record credentials =
  sellerId :: jstring
  awsAccountId :: jstring
  secretKey :: jstring
  host :: jstring

record request =
  endpoint :: jstring
  credentials :: credentials
  parameters :: "parameter list"

definition addParam :: "request \<Rightarrow> parameter \<Rightarrow> request" where
  "addParam r p = r\<lparr>parameters := parameters r @ [p]\<rparr>"

text \<open>The constructor; \<open>now\<close> is the value of \<open>moment()\<close> at the call.\<close>

definition new_Request :: "jstring \<Rightarrow> credentials \<Rightarrow> moment \<Rightarrow> request" where
  "new_Request ep creds now =
     addParam (addParam (addParam (addParam
       \<lparr>endpoint = ep, credentials = creds, parameters = []\<rparr>
       (StringParameter (js ''AWSAccessKeyId'') (awsAccountId creds)))
       (StringParameter (js ''SignatureMethod'') (js ''HmacSHA256'')))
       (StringParameter (js ''SignatureVersion'') (js ''2'')))
       (TimestampParameter (js ''Timestamp'') now)"

text \<open>
  The canonical mapping: the object \<open>input\<close> that both \<open>getQueryString\<close> and
  \<open>getStringToSign\<close> build by extending an empty object with the serialization of every
  parameter in turn.
\<close>

definition collect_input :: "parameter list \<Rightarrow> dictionary" where
  "collect_input ps = foldl (\<lambda>input param. obj_extend input (serialize param)) [] ps"

section \<open>Percent-encoding\<close>

datatype error = URIError | TypeError

text \<open>
  \<open>encodeURIComponent\<close> (ECMAScript \<open>Encode\<close> with the set \<open>uriUnescaped\<close>): a code
  unit of the set is copied; any other one is read as a code point, together with the
  following code unit when it is a leading surrogate, and the octets of the code point's
  UTF-8 encoding are written as \<open>%XX\<close> with upper-case hexadecimal digits. A surrogate
  without its partner raises \<open>URIError\<close>.
\<close>

definition uriUnescaped :: "code_unit \<Rightarrow> bool" where
  "uriUnescaped c \<longleftrightarrow>
     (0x41 \<le> c \<and> c \<le> 0x5A) \<or> (0x61 \<le> c \<and> c \<le> 0x7A) \<or> (0x30 \<le> c \<and> c \<le> 0x39) \<or>
     c \<in> set (js ''-_.!~*'()'')"

definition utf8 :: "nat \<Rightarrow> nat list" where
  "utf8 v =
     (if v < 0x80 then [v]
      else if v < 0x800 then [0xC0 + v div 0x40, 0x80 + v mod 0x40]
      else if v < 0x10000 then [0xE0 + v div 0x1000, 0x80 + v div 0x40 mod 0x40, 0x80 + v mod 0x40]
      else [0xF0 + v div 0x40000, 0x80 + v div 0x1000 mod 0x40, 0x80 + v div 0x40 mod 0x40,
            0x80 + v mod 0x40])"

definition hex_upper :: "nat \<Rightarrow> code_unit" where
  "hex_upper d = (if d < 10 then of_nat (48 + d) else of_nat (55 + d))"

definition percent :: "nat \<Rightarrow> jstring" where
  "percent b = [0x25, hex_upper (b div 16), hex_upper (b mod 16)]"

definition escape :: "nat \<Rightarrow> jstring" where
  "escape v = concat (map percent (utf8 v))"

fun encodeURIComponent :: "jstring \<Rightarrow> error + jstring" where
  "encodeURIComponent [] = Inr []"
| "encodeURIComponent (c # cs) =
     (if uriUnescaped c then
        (case encodeURIComponent cs of Inl e \<Rightarrow> Inl e | Inr r \<Rightarrow> Inr (c # r))
      else if 0xDC00 \<le> c \<and> c \<le> 0xDFFF then Inl URIError
      else if c < 0xD800 \<or> 0xDBFF < c then
        (case encodeURIComponent cs of Inl e \<Rightarrow> Inl e | Inr r \<Rightarrow> Inr (escape (unat c) @ r))
      else
        (case cs of
           [] \<Rightarrow> Inl URIError
         | d # ds \<Rightarrow>
             if d < 0xDC00 \<or> 0xDFFF < d then Inl URIError
             else
               (case encodeURIComponent ds of
                  Inl e \<Rightarrow> Inl e
                | Inr r \<Rightarrow>
                    Inr (escape ((unat c - 0xD800) * 0x400 + (unat d - 0xDC00) + 0x10000) @ r))))"

text \<open>\<open>input.replace(/c/g, r)\<close> for a pattern that is one literal character.\<close>

definition replace :: "code_unit \<Rightarrow> jstring \<Rightarrow> jstring \<Rightarrow> jstring" where
  "replace c r s = concat (map (\<lambda>x. if x = c then r else [x]) s)"

definition urlEncode :: "jstring \<Rightarrow> error + jstring" where
  "urlEncode input =
     (case encodeURIComponent input of
        Inl e \<Rightarrow> Inl e
      | Inr s \<Rightarrow>
          Inr (replace 0x21 (js ''%21'') (replace 0x27 (js ''%27'') (replace 0x29 (js ''%29'')
            (replace 0x28 (js ''%28'') (replace 0x2A (js ''%2A'') s))))))"

section \<open>Canonicalization\<close>

text \<open>
  The loop of \<open>getStringToSign\<close> over the sorted keys: \<open>ks\<close> are the keys from index
  \<open>i\<close> on, \<open>str\<close> the string built so far.
\<close>

fun sign_loop :: "dictionary \<Rightarrow> jstring list \<Rightarrow> nat \<Rightarrow> jstring \<Rightarrow> error + jstring" where
  "sign_loop input [] i str = Inr str"
| "sign_loop input (k # ks) i str =
     (case urlEncode (to_string (obj_get input k)) of
        Inl e \<Rightarrow> Inl e
      | Inr v \<Rightarrow> sign_loop input ks (i + 1) ((if i \<noteq> 0 then str @ js ''&'' else str) @ k @ js ''='' @ v))"

definition getStringToSign :: "request \<Rightarrow> jstring \<Rightarrow> error + jstring" where
  "getStringToSign r ep =
     (let input = collect_input (parameters r);
          ks = sort (obj_keys input)
      in case sign_loop input ks 0 [] of
           Inl e \<Rightarrow> Inl e
         | Inr str \<Rightarrow> Inr (join [0x0A] [js ''POST'', host (credentials r), ep, str]))"

text \<open>
  The loop \<open>_.each(input, ...)\<close> of \<open>getQueryString\<close> over the properties of \<open>input\<close>,
  pushing onto \<open>queryArray\<close>.
\<close>

fun query_loop :: "dictionary \<Rightarrow> jstring list \<Rightarrow> error + jstring list" where
  "query_loop [] queryArray = Inr queryArray"
| "query_loop ((key, val) # rest) queryArray =
     (case urlEncode val of
        Inl e \<Rightarrow> Inl e
      | Inr v \<Rightarrow> query_loop rest (queryArray @ [key @ js ''='' @ v]))"

definition getQueryString :: "request \<Rightarrow> error + jstring" where
  "getQueryString r =
     (case query_loop (collect_input (parameters r)) [] of
        Inl e \<Rightarrow> Inl e
      | Inr queryArray \<Rightarrow> Inr (join (js ''&'') queryArray))"

section \<open>Signing\<close>

text \<open>\<open>String.prototype.charAt\<close>: the empty string out of range.\<close>

definition charAt :: "jstring \<Rightarrow> nat \<Rightarrow> jstring" where
  "charAt s i = (if i < length s then [s ! i] else [])"

text \<open>
  \<open>String.prototype.indexOf\<close>: the first position at which the searched string occurs,
  \<open>-1\<close> when there is none. The empty string occurs at position 0.
\<close>

fun indexOf_from :: "jstring \<Rightarrow> jstring \<Rightarrow> nat \<Rightarrow> int" where
  "indexOf_from [] t i = (if t = [] then int i else - 1)"
| "indexOf_from (c # cs) t i =
     (if take (length t) (c # cs) = t then int i else indexOf_from cs t (i + 1))"

definition indexOf :: "jstring \<Rightarrow> jstring \<Rightarrow> int" where
  "indexOf s t = indexOf_from s t 0"

definition b64pad :: jstring where
  "b64pad = js ''=''"

definition tab :: jstring where
  "tab = js ''ABCDEFGHIJKLMNOPQRSTUVWXYZabcdefghijklmnopqrstuvwxyz0123456789+/''"

definition hex :: jstring where
  "hex = js ''0123456789abcdef''"

text \<open>
  One turn of the inner loop of \<open>hexStrToBase64\<close>. The test
  \<open>(i / 2) * 8 + j * 6 > (input.length / 2) * 8\<close> is on numbers; both sides are exact, and
  the test is \<open>4 * i + 6 * j > 4 * input.length\<close>. The triplet is a 32-bit integer and
  \<open>>>>\<close> its unsigned shift.
\<close>

definition sextet :: "jstring \<Rightarrow> nat \<Rightarrow> 32 word \<Rightarrow> nat \<Rightarrow> jstring" where
  "sextet input i triplet j =
     (if 4 * i + 6 * j > 4 * length input then b64pad
      else charAt tab (unat (drop_bit (6 * (3 - j)) triplet AND 0x3F)))"

text \<open>The outer loop of \<open>hexStrToBase64\<close>, from index \<open>i\<close> with \<open>output\<close> so far.\<close>

function hex_loop :: "jstring \<Rightarrow> nat \<Rightarrow> jstring \<Rightarrow> jstring" where
  "hex_loop input i output =
     (if i < length input then
        let len = length input;
            c1 = push_bit 4 (indexOf hex (charAt input i)) + indexOf hex (charAt input (i + 1));
            c2 = (if i + 2 < len then push_bit 4 (indexOf hex (charAt input (i + 2))) else 0) +
                 (if i + 3 < len then indexOf hex (charAt input (i + 3)) else 0);
            c3 = (if i + 4 < len then push_bit 4 (indexOf hex (charAt input (i + 4))) else 0) +
                 (if i + 5 < len then indexOf hex (charAt input (i + 5)) else 0);
            triplet = push_bit 16 (word_of_int c1) OR push_bit 8 (word_of_int c2) OR word_of_int c3
        in hex_loop input (i + 6)
             (output @ sextet input i triplet 0 @ sextet input i triplet 1 @
              sextet input i triplet 2 @ sextet input i triplet 3)
      else output)"
  by pat_completeness auto
termination
  by (relation "measure (\<lambda>(input, i, output). length input - i)") auto

declare hex_loop.simps [simp del]

definition hexStrToBase64 :: "jstring \<Rightarrow> jstring" where
  "hexStrToBase64 input = hex_loop input 0 []"

text \<open>
  \<open>crypto.createHmac('sha256', key).update(message).digest('hex')\<close>: the HMAC belongs to
  the platform and is a parameter \<open>hmac key message\<close>, the raw digest as a list of octets;
  \<open>digest_hex\<close> is its rendering by \<open>digest('hex')\<close>, two lower-case hexadecimal digits
  for every octet.
\<close>

type_synonym octet = "8 word"
type_synonym hmac = "jstring \<Rightarrow> jstring \<Rightarrow> octet list"

definition hex_digit :: "nat \<Rightarrow> code_unit" where
  "hex_digit d = (if d < 10 then of_nat (48 + d) else of_nat (87 + d))"

definition digest_hex :: "octet list \<Rightarrow> jstring" where
  "digest_hex bs = concat (map (\<lambda>b. [hex_digit (unat b div 16), hex_digit (unat b mod 16)]) bs)"

text \<open>The padding loop of \<open>getSignature\<close>: \<open>j\<close> is computed once, before the loop.\<close>

definition pad_loop :: "jstring \<Rightarrow> jstring" where
  "pad_loop b64hmac = b64hmac @ concat (replicate (length b64hmac mod 4) (js ''=''))"

definition getSignature :: "hmac \<Rightarrow> request \<Rightarrow> error + jstring" where
  "getSignature hmac r =
     (case getStringToSign r (endpoint r) of
        Inl e \<Rightarrow> Inl e
      | Inr strToSign \<Rightarrow>
          Inr (pad_loop (hexStrToBase64 (digest_hex (hmac (secretKey (credentials r)) strToSign)))))"

section \<open>Sending\<close>

text \<open>
  The part of \<open>send\<close> that runs before the network call: it signs, appends the
  \<open>Signature\<close> parameter to the request, and builds the URL and the headers of the POST.
  The result is the request as \<open>send\<close> leaves it together with the call it issues.
\<close>

record post =
  url :: jstring
  headers :: "(jstring \<times> jstring) list"

definition send :: "hmac \<Rightarrow> request \<Rightarrow> error + request \<times> post" where
  "send hmac r =
     (case getSignature hmac r of
        Inl e \<Rightarrow> Inl e
      | Inr signature \<Rightarrow>
          let r' = addParam r (StringParameter (js ''Signature'') signature) in
          (case getQueryString r' of
             Inl e \<Rightarrow> Inl e
           | Inr queryString \<Rightarrow>
               Inr (r', \<lparr>url = js ''https://'' @ host (credentials r') @ endpoint r' @ js ''?'' @ queryString,
                         headers = [(js ''x-amazon-user-agent'', js ''pptest/1.0 (Language=Javascript)''),
                                    (js ''Content-Type'', js ''text/xml'')]\<rparr>)))"

section \<open>Classifying the response\<close>

text \<open>
  The values the callbacks handle: errors of the request and xml2js libraries, the
  response, and the object xml2js parses a body into (with \<open>explicitArray: false\<close>: text
  as a string, an element with children as an object, repeated children as an array). An
  object is the list of its own properties.
\<close>

datatype jsval =
    JUndefined
  | JNull
  | JString jstring
  | JArray "jsval list"
  | JObject "(jstring \<times> jsval) list"

text \<open>The truth value of \<open>if (err)\<close>.\<close>

fun truthy :: "jsval \<Rightarrow> bool" where
  "truthy JUndefined = False"
| "truthy JNull = False"
| "truthy (JString s) = (s \<noteq> [])"
| "truthy (JArray xs) = True"
| "truthy (JObject ps) = True"

text \<open>
  \<open>_.has(obj, key)\<close> is \<open>obj != null && hasOwnProperty.call(obj, key)\<close>, and \<open>get v key\<close>
  is the read \<open>v[key]\<close>, which raises \<open>TypeError\<close> on \<open>undefined\<close> and \<open>null\<close>. Both
  are used with the names \<open>ErrorResponse\<close>, \<open>Error\<close> and \<open>Message\<close> only: none is an
  index, \<open>length\<close> or a property of a prototype, so a string or an array has no such
  property and an object has it only as its own.
\<close>

fun has :: "jsval \<Rightarrow> jstring \<Rightarrow> bool" where
  "has (JObject ps) key = (key \<in> set (map fst ps))"
| "has v key = False"

fun get :: "jsval \<Rightarrow> jstring \<Rightarrow> error + jsval" where
  "get JUndefined key = Inl TypeError"
| "get JNull key = Inl TypeError"
| "get (JObject ps) key = Inr (case map_of ps key of None \<Rightarrow> JUndefined | Some v \<Rightarrow> v)"
| "get v key = Inr JUndefined"

text \<open>
  \<open>AmazonTypes.Error\<close> and one call \<open>callback(err, result)\<close>; an argument that is not
  passed, and a field that is not set, is \<open>undefined\<close>.
\<close>

record amazon_error =
  origin :: jstring
  message :: jsval
  metadata :: jsval

datatype outcome = Callback "amazon_error option" jsval

text \<open>
  The callback \<open>function(err, result)\<close> that \<open>send\<close> hands to \<open>xmlParse\<close>. The result is
  the call of \<open>callback\<close> it makes, or the exception it raises instead of calling it.
\<close>

definition on_parsed :: "jsval \<Rightarrow> jsval \<Rightarrow> error + outcome" where
  "on_parsed err result =
     (if truthy err then
        Inr (Callback (Some \<lparr>origin = js ''XMLParsing'', message = err, metadata = JUndefined\<rparr>) JUndefined)
      else if has result (js ''ErrorResponse'') then
        (case get result (js ''ErrorResponse'') of
           Inl e \<Rightarrow> Inl e
         | Inr er \<Rightarrow>
             (case get er (js ''Error'') of
                Inl e \<Rightarrow> Inl e
              | Inr payload \<Rightarrow>
                  (case get payload (js ''Message'') of
                     Inl e \<Rightarrow> Inl e
                   | Inr msg \<Rightarrow>
                       Inr (Callback (Some \<lparr>origin = js ''MWS'', message = msg, metadata = payload\<rparr>)
                              JUndefined))))
      else Inr (Callback None result))"

text \<open>
  The callback \<open>function(err, httpResponse, body)\<close> of \<open>request.post\<close>. The XML parser
  belongs to xml2js and is a parameter: \<open>xmlParse body\<close> is the pair \<open>(err, result)\<close> it
  passes to its callback.
\<close>

definition on_response :: "(jsval \<Rightarrow> jsval \<times> jsval) \<Rightarrow> jsval \<Rightarrow> jsval \<Rightarrow> jsval \<Rightarrow> error + outcome" where
  "on_response xmlParse err httpResponse body =
     (if truthy err then
        Inr (Callback (Some \<lparr>origin = js ''PostRequest'', message = err, metadata = httpResponse\<rparr>)
               JUndefined)
      else on_parsed (fst (xmlParse body)) (snd (xmlParse body)))"

section \<open>Notions used in the statements\<close>

text \<open>
  Whether \<open>urlEncode\<close> returns on a string, and the string it returns then. (It raises
  \<open>URIError\<close> on a string with a surrogate that has no partner.)
\<close>

definition encodable :: "jstring \<Rightarrow> bool" where
  "encodable s = (case urlEncode s of Inl e \<Rightarrow> False | Inr t \<Rightarrow> True)"

definition encoded :: "jstring \<Rightarrow> jstring" where
  "encoded s = (case urlEncode s of Inl e \<Rightarrow> [] | Inr t \<Rightarrow> t)"

text \<open>
  The code points that \<open>encodeURIComponent\<close> reads from a string: a code unit that is not
  a surrogate is a code point, a leading surrogate followed by a trailing one is the code
  point of the pair, and any other surrogate is the error. \<open>chunk\<close> is what \<open>urlEncode\<close>
  writes for one code point.
\<close>

fun code_points :: "jstring \<Rightarrow> error + nat list" where
  "code_points [] = Inr []"
| "code_points (c # cs) =
     (if 0xDC00 \<le> c \<and> c \<le> 0xDFFF then Inl URIError
      else if c < 0xD800 \<or> 0xDBFF < c then
        (case code_points cs of Inl e \<Rightarrow> Inl e | Inr vs \<Rightarrow> Inr (unat c # vs))
      else
        (case cs of
           [] \<Rightarrow> Inl URIError
         | d # ds \<Rightarrow>
             if d < 0xDC00 \<or> 0xDFFF < d then Inl URIError
             else
               (case code_points ds of
                  Inl e \<Rightarrow> Inl e
                | Inr vs \<Rightarrow> Inr (((unat c - 0xD800) * 0x400 + (unat d - 0xDC00) + 0x10000) # vs))))"

definition replace5 :: "jstring \<Rightarrow> jstring" where
  "replace5 s =
     replace 0x21 (js ''%21'') (replace 0x27 (js ''%27'') (replace 0x29 (js ''%29'')
       (replace 0x28 (js ''%28'') (replace 0x2A (js ''%2A'') s))))"

definition unreserved :: "nat \<Rightarrow> bool" where
  "unreserved v \<longleftrightarrow>
     (0x41 \<le> v \<and> v \<le> 0x5A) \<or> (0x61 \<le> v \<and> v \<le> 0x7A) \<or> (0x30 \<le> v \<and> v \<le> 0x39) \<or>
     v = 0x2D \<or> v = 0x5F \<or> v = 0x2E \<or> v = 0x7E"

definition chunk :: "nat \<Rightarrow> jstring" where
  "chunk v = (if unreserved v then [of_nat v] else escape v)"

text \<open>
  The octets of the UTF-8 encoding of a string whose surrogates are paired (and no octets
  for any other string): what a byte-wise comparison of two strings looks at.
\<close>

definition utf8_octets :: "jstring \<Rightarrow> nat list" where
  "utf8_octets s = (case code_points s of Inl e \<Rightarrow> [] | Inr vs \<Rightarrow> concat (map utf8 vs))"





section \<open>Standard base64\<close>

text \<open>
  The reference that the signature is compared with: the standard base64 encoding of a
  sequence of octets (RFC 4648), written after the standard and not after the source.
  Three octets are read as four groups of six bits, each written as a character of the
  alphabet; one or two remaining octets are filled up with zero bits and the output is
  padded with \<open>=\<close> to four characters.
\<close>

definition base64_alphabet :: jstring where
  "base64_alphabet = js ''ABCDEFGHIJKLMNOPQRSTUVWXYZabcdefghijklmnopqrstuvwxyz0123456789+/''"

definition b64 :: "octet \<Rightarrow> code_unit" where
  "b64 s = base64_alphabet ! unat s"

fun base64 :: "octet list \<Rightarrow> jstring" where
  "base64 [] = []"
| "base64 [a] = [b64 (drop_bit 2 a), b64 (push_bit 4 (a AND 3)), 0x3D, 0x3D]"
| "base64 [a, b] =
     [b64 (drop_bit 2 a), b64 (push_bit 4 (a AND 3) OR drop_bit 4 b), b64 (push_bit 2 (b AND 15)), 0x3D]"
| "base64 (a # b # c # bs) =
     [b64 (drop_bit 2 a), b64 (push_bit 4 (a AND 3) OR drop_bit 4 b),
      b64 (push_bit 2 (b AND 15) OR drop_bit 6 c), b64 (c AND 63)] @ base64 bs"

section \<open>An example request\<close>

text \<open>
  Credentials, a request as the constructor builds it at a fixed time, and a stand-in for
  the platform's HMAC that returns the 32 octets \<open>0, 1, ..., 31\<close> for every key and
  message. \<open>sent0\<close> and \<open>post0\<close> are the request and the POST call as \<open>send\<close>
  leaves them. \<open>hmac1\<close> is a second stand-in, one without collisions: it returns the
  octets of the message, two for a code unit.
\<close>

definition creds0 :: credentials where
  "creds0 = \<lparr>sellerId = js ''S1'', awsAccountId = js ''AKID'', secretKey = js ''SECRET'',
     host = js ''example.test''\<rparr>"

definition request0 :: request where
  "request0 = new_Request (js ''/'') creds0 (Moment (js ''2020-01-01T00:00:00.000Z''))"

definition hmac0 :: hmac where
  "hmac0 key msg = [0, 1, 2, 3, 4, 5, 6, 7, 8, 9, 10, 11, 12, 13, 14, 15, 16, 17, 18, 19, 20, 21,
     22, 23, 24, 25, 26, 27, 28, 29, 30, 31]"


definition sent0 :: request where
  "sent0 = addParam request0
     (StringParameter (js ''Signature'') (js ''AAECAwQFBgcICQoLDA0ODxAREhMUFRYXGBkaGxwdHh8=''))"

definition post0 :: post where
  "post0 = \<lparr>url = js ''https://example.test/?AWSAccessKeyId=AKID&SignatureMethod=HmacSHA256&SignatureVersion=2&Timestamp=2020-01-01T00%3A00%3A00.000Z&Signature=AAECAwQFBgcICQoLDA0ODxAREhMUFRYXGBkaGxwdHh8%3D'',
     headers = [(js ''x-amazon-user-agent'', js ''pptest/1.0 (Language=Javascript)''),
                (js ''Content-Type'', js ''text/xml'')]\<rparr>"

section \<open>Decimal numerals and list parameters\<close>

lemma unat_digit: "d < 10 \<Longrightarrow> unat (digit d) = 48 + d"
  unfolding digit_def by (simp only: unat_of_nat) simp

lemma digits_value_snoc: "digits_value (xs @ [c]) = 10 * digits_value xs + (unat c - 48)"
  by (simp add: digits_value_def)

lemma digits_value_num_to_string: "digits_value (num_to_string n) = n"
proof (induction n rule: num_to_string.induct)
  case (1 n)
  show ?case
  proof (cases "n < 10")
    case True
    then show ?thesis
      by (subst num_to_string.simps) (simp add: digits_value_def unat_digit)
  next
    case False
    with 1 show ?thesis
      by (subst num_to_string.simps) (simp add: digits_value_snoc unat_digit)
  qed
qed

lemma num_to_string_inj: "num_to_string m = num_to_string n \<Longrightarrow> m = n"
  by (metis digits_value_num_to_string)

lemma digit_range: "d < 10 \<Longrightarrow> 48 \<le> digit d \<and> digit d \<le> 57"
  by (simp add: word_le_nat_alt unat_digit)

lemma num_to_string_range: "c \<in> set (num_to_string n) \<Longrightarrow> 48 \<le> c \<and> c \<le> 57"
proof (induction n rule: num_to_string.induct)
  case (1 n)
  show ?case
  proof (cases "n < 10")
    case True
    with 1(2) show ?thesis
      by (subst (asm) num_to_string.simps) (simp add: digit_range)
  next
    case False
    with 1 show ?thesis
      by (subst (asm) (2) num_to_string.simps) (auto simp: digit_range)
  qed
qed

lemma num_to_string_not_Nil: "num_to_string n \<noteq> []"
  by (subst num_to_string.simps) simp

lemma last_num_to_string: "last (num_to_string n) = digit (n mod 10)"
  by (subst num_to_string.simps) (simp add: num_to_string_not_Nil)


lemma is_array_index_digits: "is_array_index k \<Longrightarrow> c \<in> set k \<Longrightarrow> 48 \<le> c \<and> c \<le> 57"
  unfolding is_array_index_def by (metis num_to_string_range)

lemma dot_key_not_index: "\<not> is_array_index (key @ js ''.'' @ s)"
proof
  assume "is_array_index (key @ js ''.'' @ s)"
  then have "48 \<le> (46 :: code_unit)"
    using is_array_index_digits [of "key @ js ''.'' @ s" 46] by (simp add: js_def)
  then show False by simp
qed

lemma dot_num_not_proto: "key @ js ''.'' @ num_to_string n \<noteq> js ''__proto__''"
proof
  assume eq: "key @ js ''.'' @ num_to_string n = js ''__proto__''"
  have "last (key @ js ''.'' @ num_to_string n) = digit (n mod 10)"
    by (simp add: num_to_string_not_Nil last_num_to_string)
  with eq have "digit (n mod 10) = 95" by (simp add: js_def)
  moreover have "digit (n mod 10) \<le> 57" by (simp add: digit_range)
  ultimately show False by simp
qed

lemma obj_set_new:
  "k \<noteq> js ''__proto__'' \<Longrightarrow> k \<notin> set (map fst obj) \<Longrightarrow> \<not> is_array_index k \<Longrightarrow>
   obj_set obj k v = obj @ [(k, v)]"
  by (simp add: obj_set_def)

lemma each_value_eq:
  "(\<And>p. p \<in> set res \<Longrightarrow> \<exists>j. j \<le> c \<and> fst p = key @ js ''.'' @ num_to_string j) \<Longrightarrow>
   each_value key vs c res =
     res @ map (\<lambda>i. (key @ js ''.'' @ num_to_string (c + Suc i), vs ! i)) [0..<length vs]"
proof (induction vs arbitrary: c res)
  case Nil
  then show ?case by simp
next
  case (Cons v vs)
  let ?k = "key @ js ''.'' @ num_to_string (c + 1)"
  have fresh: "?k \<notin> set (map fst res)"
  proof
    assume "?k \<in> set (map fst res)"
    then obtain p where "p \<in> set res" "fst p = ?k" by auto
    with Cons.prems obtain j where "j \<le> c" "key @ js ''.'' @ num_to_string j = ?k" by metis
    then have "j = c + 1" using num_to_string_inj by simp
    with \<open>j \<le> c\<close> show False by simp
  qed
  have step: "obj_set res ?k v = res @ [(?k, v)]"
    using fresh by (intro obj_set_new dot_num_not_proto dot_key_not_index)
  have inv: "\<exists>j. j \<le> c + 1 \<and> fst p = key @ js ''.'' @ num_to_string j"
    if "p \<in> set (res @ [(?k, v)])" for p
  proof (cases "p \<in> set res")
    case True
    with Cons.prems obtain j where "j \<le> c" "fst p = key @ js ''.'' @ num_to_string j" by metis
    then show ?thesis by (intro exI [of _ j]) simp
  next
    case False
    with that have "p = (?k, v)" by simp
    then show ?thesis by (intro exI [of _ "c + 1"]) simp
  qed
  have "each_value key (v # vs) c res = each_value key vs (c + 1) (res @ [(?k, v)])"
    using step by simp
  also have "\<dots> = (res @ [(?k, v)]) @
      map (\<lambda>i. (key @ js ''.'' @ num_to_string (c + 1 + Suc i), vs ! i)) [0..<length vs]"
    by (rule Cons.IH) (rule inv)
  also have "\<dots> = res @
      map (\<lambda>i. (key @ js ''.'' @ num_to_string (c + Suc i), (v # vs) ! i)) [0..<length (v # vs)]"
    by (simp add: map_upt_Suc del: upt_Suc)
  finally show ?case .
qed

lemma serialize_list:
  "serialize (ListParameter K vs) =
     map (\<lambda>i. (K @ js ''.'' @ num_to_string (Suc i), vs ! i)) [0..<length vs]"
  using each_value_eq [of "[]" 0 K vs] by simp

lemma list_keys_distinct: "distinct (map (\<lambda>i. K @ js ''.'' @ num_to_string (Suc i)) [0..<n])"
  by (auto simp: distinct_map intro!: inj_onI dest: num_to_string_inj)

text \<open>
  Claim C7. A list parameter with key \<open>K\<close> and values \<open>v1 .. vn\<close> serializes to exactly
  the \<open>n\<close> properties \<open>K.1: v1\<close>, ..., \<open>K.n: vn\<close>, in this order: the keys are numbered
  from 1 without a gap, they are pairwise different, there is no other property, and a
  list parameter without values serializes to the empty object. A value pushed onto the
  list is serialized last, under the next number.
\<close>

theorem ListParameter_serialize:
  "serialize (ListParameter K vs) =
     map (\<lambda>i. (K @ js ''.'' @ num_to_string (Suc i), vs ! i)) [0..<length vs] \<and>
   distinct (obj_keys (serialize (ListParameter K vs))) \<and>
   length (serialize (ListParameter K vs)) = length vs \<and>
   serialize (ListParameter K []) = [] \<and>
   serialize (push (ListParameter K vs) v) =
     serialize (ListParameter K vs) @ [(K @ js ''.'' @ num_to_string (Suc (length vs)), v)]"
proof -
  let ?d = "map (\<lambda>i. (K @ js ''.'' @ num_to_string (Suc i), vs ! i)) [0..<length vs]"
  have eq: "serialize (ListParameter K vs) = ?d"
    by (rule serialize_list)
  have d: "distinct (obj_keys ?d)"
    unfolding obj_keys_def using list_keys_distinct [of K "length vs"] by (simp add: comp_def)
  have l: "length ?d = length vs"
    by simp
  have e: "serialize (ListParameter K []) = []"
    by simp
  have "serialize (ListParameter K (vs @ [v])) =
      map (\<lambda>i. (K @ js ''.'' @ num_to_string (Suc i), (vs @ [v]) ! i)) [0..<length vs] @
      [(K @ js ''.'' @ num_to_string (Suc (length vs)), v)]"
    unfolding serialize_list by simp
  also have "map (\<lambda>i. (K @ js ''.'' @ num_to_string (Suc i), (vs @ [v]) ! i)) [0..<length vs] = ?d"
    by (rule map_cong [OF refl]) (simp add: nth_append)
  finally have p: "serialize (push (ListParameter K vs) v) =
      ?d @ [(K @ js ''.'' @ num_to_string (Suc (length vs)), v)]"
    by (simp only: push.simps)
  show ?thesis
    by (simp only: eq d l e p simp_thms)
qed

section \<open>Objects as finite maps\<close>

lemma map_of_update_same:
  "k \<in> fst ` set obj \<Longrightarrow> map_of (map (\<lambda>p. if fst p = k then (k, v) else p) obj) k = Some v"
  by (induction obj) auto

lemma map_of_update_other:
  "x \<noteq> k \<Longrightarrow> map_of (map (\<lambda>p. if fst p = k then (k, v) else p) obj) x = map_of obj x"
  by (induction obj) auto

lemma map_of_update_in_place:
  "k \<in> fst ` set obj \<Longrightarrow>
   map_of (map (\<lambda>p. if fst p = k then (k, v) else p) obj) = (map_of obj)(k \<mapsto> v)"
  by (rule ext) (simp add: map_of_update_same map_of_update_other)

lemma map_of_insert_between:
  assumes fresh: "k \<notin> fst ` set obj"
  shows "map_of (takeWhile P obj @ [(k, v)] @ dropWhile P obj) = (map_of obj)(k \<mapsto> v)"
proof (rule ext)
  fix x
  show "map_of (takeWhile P obj @ [(k, v)] @ dropWhile P obj) x = ((map_of obj)(k \<mapsto> v)) x"
  proof (cases "x = k")
    case True
    have "k \<notin> fst ` set (takeWhile P obj)"
      using fresh by (auto dest: set_takeWhileD)
    then have "map_of (takeWhile P obj) k = None"
      by (simp add: map_of_eq_None_iff)
    with True show ?thesis by (simp add: map_add_def)
  next
    case False
    have "map_of obj x = map_of (takeWhile P obj @ dropWhile P obj) x" by simp
    also have "\<dots> = map_of (takeWhile P obj @ [(k, v)] @ dropWhile P obj) x"
      using False unfolding map_of_append by (simp add: map_add_def split: option.splits)
    finally show ?thesis using False by simp
  qed
qed

lemma map_of_snoc:
  "k \<notin> fst ` set obj \<Longrightarrow> map_of (obj @ [(k, v)]) = (map_of obj)(k \<mapsto> v)"
proof -
  assume "k \<notin> fst ` set obj"
  then have "map_of obj k = None"
    by (simp add: map_of_eq_None_iff)
  then show ?thesis
    by (intro ext) (auto simp: map_add_def split: option.splits)
qed

lemma map_of_obj_set:
  "map_of (obj_set obj k v) = (if k = js ''__proto__'' then map_of obj else (map_of obj)(k \<mapsto> v))"
proof -
  consider "k = js ''__proto__''" | "k \<noteq> js ''__proto__''" "k \<in> fst ` set obj"
    | "k \<noteq> js ''__proto__''" "k \<notin> fst ` set obj" "is_array_index k"
    | "k \<noteq> js ''__proto__''" "k \<notin> fst ` set obj" "\<not> is_array_index k"
    by blast
  then show ?thesis
  proof cases
    case 1
    then show ?thesis by (simp add: obj_set_def)
  next
    case 2
    then have "obj_set obj k v = map (\<lambda>p. if fst p = k then (k, v) else p) obj"
      by (simp add: obj_set_def)
    with 2 show ?thesis using map_of_update_in_place [of k obj v] by simp
  next
    case 3
    then have "obj_set obj k v = takeWhile (before_index k) obj @ [(k, v)] @ dropWhile (before_index k) obj"
      by (simp add: obj_set_def)
    with 3 show ?thesis using map_of_insert_between [of k obj "before_index k" v] by simp
  next
    case 4
    then have "obj_set obj k v = obj @ [(k, v)]"
      by (simp add: obj_set_def)
    with 4 show ?thesis using map_of_snoc [of k obj v] by simp
  qed
qed

lemma keys_update_in_place:
  "map fst (map (\<lambda>p. if fst p = k then (k, v) else p) obj) = map fst obj"
  by (induction obj) auto

lemma distinct_insert_between:
  assumes d: "distinct (map fst obj)" and fresh: "k \<notin> fst ` set obj"
  shows "distinct (map fst (takeWhile P obj @ [(k, v)] @ dropWhile P obj))"
proof -
  have "distinct (map fst (takeWhile P obj @ dropWhile P obj))"
    using d by simp
  then have "distinct (map fst (takeWhile P obj) @ map fst (dropWhile P obj))"
    by (simp only: map_append)
  moreover have "k \<notin> set (map fst (takeWhile P obj))"
    using fresh by (auto dest: set_takeWhileD)
  moreover have "k \<notin> set (map fst (dropWhile P obj))"
    using fresh by (auto dest: set_dropWhileD)
  ultimately show ?thesis by auto
qed

lemma distinct_obj_set:
  assumes d: "distinct (map fst obj)"
  shows "distinct (map fst (obj_set obj k v))"
proof -
  consider "k = js ''__proto__''" | "k \<noteq> js ''__proto__''" "k \<in> fst ` set obj"
    | "k \<noteq> js ''__proto__''" "k \<notin> fst ` set obj" "is_array_index k"
    | "k \<noteq> js ''__proto__''" "k \<notin> fst ` set obj" "\<not> is_array_index k"
    by blast
  then show ?thesis
  proof cases
    case 1
    with d show ?thesis by (simp add: obj_set_def)
  next
    case 2
    then have "obj_set obj k v = map (\<lambda>p. if fst p = k then (k, v) else p) obj"
      by (simp add: obj_set_def)
    with d show ?thesis by (simp only: keys_update_in_place)
  next
    case 3
    then have "obj_set obj k v = takeWhile (before_index k) obj @ [(k, v)] @ dropWhile (before_index k) obj"
      by (simp add: obj_set_def)
    with 3 show ?thesis using distinct_insert_between [OF d, of k "before_index k" v] by simp
  next
    case 4
    then have "obj_set obj k v = obj @ [(k, v)]"
      by (simp add: obj_set_def)
    with 4 d show ?thesis by simp
  qed
qed

lemma set_keys_obj_set:
  "fst ` set (obj_set obj k v) =
     (if k = js ''__proto__'' then fst ` set obj else insert k (fst ` set obj))"
proof -
  have "fst ` set (obj_set obj k v) = dom (map_of (obj_set obj k v))"
    by (simp add: dom_map_of_conv_image_fst)
  also have "\<dots> = (if k = js ''__proto__'' then dom (map_of obj) else insert k (dom (map_of obj)))"
    by (simp add: map_of_obj_set)
  finally show ?thesis by (simp add: dom_map_of_conv_image_fst)
qed

lemma distinct_obj_extend:
  "distinct (map fst obj) \<Longrightarrow> distinct (map fst (obj_extend obj source))"
  unfolding obj_extend_def
  by (induction source arbitrary: obj) (simp_all add: distinct_obj_set)

lemma map_of_rev_distinct: "distinct (map fst xs) \<Longrightarrow> map_of (rev xs) = map_of xs"
  by (rule map_of_inject_set [THEN iffD2]) (simp_all add: rev_map [symmetric])

lemma map_of_obj_extend:
  "js ''__proto__'' \<notin> fst ` set source \<Longrightarrow>
   map_of (obj_extend obj source) = map_of obj ++ map_of (rev source)"
  unfolding obj_extend_def
proof (induction source arbitrary: obj)
  case Nil
  then show ?case by simp
next
  case (Cons p source)
  obtain k v where p: "p = (k, v)" by (cases p)
  with Cons.prems have k: "k \<noteq> js ''__proto__''" by auto
  have "map_of (foldl (\<lambda>acc p. obj_set acc (fst p) (snd p)) obj (p # source)) =
      map_of (obj_set obj k v) ++ map_of (rev source)"
    using Cons.IH [of "obj_set obj k v"] Cons.prems by (simp add: p)
  also have "\<dots> = (map_of obj)(k \<mapsto> v) ++ map_of (rev source)"
    using k by (simp add: map_of_obj_set)
  also have "\<dots> = map_of obj ++ map_of (rev (p # source))"
    by (auto simp: p fun_eq_iff map_add_def split: option.splits)
  finally show ?case .
qed

lemma serialize_scalar:
  "serialize (StringParameter k v) = (if k = js ''__proto__'' then [] else [(k, v)])"
  "serialize (TimestampParameter k t) = (if k = js ''__proto__'' then [] else [(k, toISOString t)])"
  by (simp_all add: obj_set_def)

lemma distinct_serialize: "distinct (map fst (serialize p))"
proof (cases p)
  case (ListParameter K vs)
  show ?thesis
    unfolding ListParameter serialize_list
    using list_keys_distinct [of K "length vs"] by (simp add: comp_def)
qed (simp_all add: serialize_scalar del: serialize.simps)

lemma proto_not_serialized: "js ''__proto__'' \<notin> fst ` set (serialize p)"
proof (cases p)
  case (ListParameter K vs)
  show ?thesis
    unfolding ListParameter serialize_list
  proof
    assume "js ''__proto__'' \<in>
      fst ` set (map (\<lambda>i. (K @ js ''.'' @ num_to_string (Suc i), vs ! i)) [0..<length vs])"
    then obtain i where "js ''__proto__'' = K @ js ''.'' @ num_to_string (Suc i)"
      by auto
    then show False
      using dot_num_not_proto [of K "Suc i"] by simp
  qed
qed (simp_all add: serialize_scalar del: serialize.simps)

lemma collect_input_snoc:
  "collect_input (ps @ [p]) = obj_extend (collect_input ps) (serialize p)"
  by (simp add: collect_input_def)

lemma distinct_collect_input: "distinct (map fst (collect_input ps))"
proof (induction ps rule: rev_induct)
  case Nil
  then show ?case by (simp add: collect_input_def)
next
  case (snoc p ps)
  then show ?case by (simp only: collect_input_snoc distinct_obj_extend)
qed

lemma map_of_collect_input:
  "map_of (collect_input ps) = map_of (concat (map serialize (rev ps)))"
proof (induction ps rule: rev_induct)
  case Nil
  then show ?case by (simp add: collect_input_def)
next
  case (snoc p ps)
  have "map_of (collect_input (ps @ [p])) = map_of (collect_input ps) ++ map_of (rev (serialize p))"
    by (simp only: collect_input_snoc map_of_obj_extend [OF proto_not_serialized])
  also have "\<dots> = map_of (collect_input ps) ++ map_of (serialize p)"
    by (simp only: map_of_rev_distinct [OF distinct_serialize])
  also have "\<dots> = map_of (concat (map serialize (rev (ps @ [p]))))"
    by (simp add: snoc.IH)
  finally show ?case .
qed

lemma keys_collect_input:
  "fst ` set (collect_input ps) = (\<Union>p\<in>set ps. fst ` set (serialize p))"
proof -
  have "fst ` set (collect_input ps) = dom (map_of (collect_input ps))"
    by (simp add: dom_map_of_conv_image_fst)
  also have "\<dots> = fst ` set (concat (map serialize (rev ps)))"
    by (simp only: map_of_collect_input dom_map_of_conv_image_fst)
  also have "\<dots> = (\<Union>p\<in>set ps. fst ` set (serialize p))"
    by auto
  finally show ?thesis .
qed

section \<open>The string to sign and the query string\<close>

lemma encodeURIComponent_error: "encodeURIComponent s = Inl e \<Longrightarrow> e = URIError"
  by (induction s arbitrary: e rule: encodeURIComponent.induct)
    (auto split: if_splits sum.splits list.splits)

lemma urlEncode_cases: "urlEncode s = (if encodable s then Inr (encoded s) else Inl URIError)"
  by (auto simp: encodable_def encoded_def urlEncode_def split: sum.splits
      dest: encodeURIComponent_error)

lemma join_Cons: "join sep (x # xs) = x @ concat (map (\<lambda>y. sep @ y) xs)"
  by (induction xs arbitrary: x) simp_all

lemma sign_loop_pos:
  "i \<noteq> 0 \<Longrightarrow>
   sign_loop input ks i str =
     (if list_all (\<lambda>k. encodable (to_string (obj_get input k))) ks then
        Inr (str @ concat (map (\<lambda>k. js ''&'' @ k @ js ''='' @ encoded (to_string (obj_get input k))) ks))
      else Inl URIError)"
  by (induction ks arbitrary: i str) (simp_all add: urlEncode_cases)

lemma sign_loop_zero:
  "sign_loop input ks 0 [] =
     (if list_all (\<lambda>k. encodable (to_string (obj_get input k))) ks then
        Inr (join (js ''&'') (map (\<lambda>k. k @ js ''='' @ encoded (to_string (obj_get input k))) ks))
      else Inl URIError)"
proof (cases ks)
  case Nil
  then show ?thesis by simp
next
  case (Cons k ks')
  then show ?thesis
    by (simp add: urlEncode_cases sign_loop_pos join_Cons comp_def)
qed

lemma query_loop_eq:
  "query_loop input queryArray =
     (if list_all (\<lambda>p. encodable (snd p)) input then
        Inr (queryArray @ map (\<lambda>p. fst p @ js ''='' @ encoded (snd p)) input)
      else Inl URIError)"
  by (induction input queryArray rule: query_loop.induct) (simp_all add: urlEncode_cases)

lemma sort_keys_collect_input:
  "sort (obj_keys (collect_input ps)) =
     sorted_list_of_set (\<Union>p\<in>set ps. fst ` set (serialize p))"
proof -
  have "remdups (obj_keys (collect_input ps)) = obj_keys (collect_input ps)"
    using distinct_collect_input [of ps] by (simp only: obj_keys_def distinct_remdups_id)
  then have "sorted_list_of_set (set (obj_keys (collect_input ps))) = sort (obj_keys (collect_input ps))"
    by (simp only: sorted_list_of_set_sort_remdups)
  moreover have "set (obj_keys (collect_input ps)) = (\<Union>p\<in>set ps. fst ` set (serialize p))"
    using keys_collect_input [of ps] by (simp add: obj_keys_def)
  ultimately show ?thesis by simp
qed

lemma finite_keys: "finite (\<Union>p\<in>set ps. fst ` set (serialize p))"
  by simp

lemma obj_get_collect_input:
  "obj_get (collect_input ps) = map_of (concat (map serialize (rev ps)))"
  by (rule ext) (simp add: obj_get_def map_of_collect_input)

lemma getStringToSign_eq:
  "getStringToSign r ep =
     (if list_all (\<lambda>k. encodable (to_string (obj_get (collect_input (parameters r)) k)))
           (sort (obj_keys (collect_input (parameters r))))
      then Inr (join [0x0A] [js ''POST'', host (credentials r), ep,
             join (js ''&'')
               (map (\<lambda>k. k @ js ''='' @ encoded (to_string (obj_get (collect_input (parameters r)) k)))
                 (sort (obj_keys (collect_input (parameters r)))))])
      else Inl URIError)"
  by (simp add: getStringToSign_def Let_def sign_loop_zero)

section \<open>What is percent-encoded\<close>

lemmas eval_defs = getStringToSign_def getQueryString_def collect_input_def obj_extend_def obj_set_def
  obj_keys_def obj_get_def to_string_def is_array_index_def before_index_def digits_value_def
  num_to_string.simps digit_def js_def urlEncode_def uriUnescaped_def replace_def escape_def
  utf8_def percent_def hex_upper_def new_Request_def addParam_def Let_def

lemma getQueryString_eq:
  "getQueryString r =
     (if list_all (\<lambda>p. encodable (snd p)) (collect_input (parameters r)) then
        Inr (join (js ''&'') (map (\<lambda>p. fst p @ js ''='' @ encoded (snd p)) (collect_input (parameters r))))
      else Inl URIError)"
  by (simp add: getQueryString_def query_loop_eq)

text \<open>
  Claim C3 says that the percent-encoding is applied to every key as well as every value,
  in both strings. A request with a parameter whose key is \<open>a b\<close> shows that it is not:
  both strings hold the key as it is, although its encoding is \<open>a%20b\<close>.
\<close>

theorem keys_not_encoded_counterexample:
  "getStringToSign
     (addParam (new_Request (js ''/'') \<lparr>sellerId = js ''S'', awsAccountId = js ''A'', secretKey = js ''K'', host = js ''h''\<rparr> (Moment (js ''2020-01-01T00:00:00.000Z'')))
        (StringParameter (js ''a b'') (js ''c d''))) (js ''/'') =
   Inr (js ''POST'' @ [0x0A] @ js ''h'' @ [0x0A] @ js ''/'' @ [0x0A] @
        js ''AWSAccessKeyId=A&SignatureMethod=HmacSHA256&SignatureVersion=2&Timestamp=2020-01-01T00%3A00%3A00.000Z&a b=c%20d'') \<and>
   getQueryString
     (addParam (new_Request (js ''/'') \<lparr>sellerId = js ''S'', awsAccountId = js ''A'', secretKey = js ''K'', host = js ''h''\<rparr> (Moment (js ''2020-01-01T00:00:00.000Z'')))
        (StringParameter (js ''a b'') (js ''c d''))) =
   Inr (js ''AWSAccessKeyId=A&SignatureMethod=HmacSHA256&SignatureVersion=2&Timestamp=2020-01-01T00%3A00%3A00.000Z&a b=c%20d'') \<and>
   urlEncode (js ''a b'') = Inr (js ''a%20b'')"
  by (simp add: eval_defs)

section \<open>The Signature parameter\<close>

lemma Signature_not_proto: "js ''Signature'' \<noteq> js ''__proto__''"
  by (simp add: js_def)

lemma serialize_Signature:
  "js ''Signature'' \<in> fst ` set (serialize p) \<longleftrightarrow>
     (\<exists>v. p = StringParameter (js ''Signature'') v) \<or> (\<exists>t. p = TimestampParameter (js ''Signature'') t)"
proof (cases p)
  case (StringParameter k v)
  then show ?thesis using Signature_not_proto by (auto simp: serialize_scalar simp del: serialize.simps)
next
  case (TimestampParameter k t)
  then show ?thesis using Signature_not_proto by (auto simp: serialize_scalar simp del: serialize.simps)
next
  case (ListParameter K vs)
  have "js ''Signature'' \<noteq> K @ js ''.'' @ num_to_string n" for n
  proof
    assume eq: "js ''Signature'' = K @ js ''.'' @ num_to_string n"
    have "(46 :: code_unit) \<in> set (K @ js ''.'' @ num_to_string n)"
      by (simp add: js_def)
    with eq have "(46 :: code_unit) \<in> set (js ''Signature'')" by simp
    then show False by (simp add: js_def)
  qed
  then show ?thesis
    unfolding ListParameter serialize_list by (auto simp: image_iff)
qed

lemma map_of_collect_input_snoc_scalar:
  "k \<noteq> js ''__proto__'' \<Longrightarrow>
   map_of (collect_input (ps @ [StringParameter k v])) = (map_of (collect_input ps))(k \<mapsto> v)"
  by (simp add: map_of_collect_input serialize_scalar del: serialize.simps)

lemma filter_key:
  "distinct (map fst d) \<Longrightarrow> map_of d k = Some v \<Longrightarrow> filter (\<lambda>p. fst p = k) d = [(k, v)]"
proof (induction d)
  case Nil
  then show ?case by simp
next
  case (Cons p d)
  show ?case
  proof (cases "fst p = k")
    case True
    with Cons.prems have "p = (k, v)" by (cases p) simp
    moreover have "filter (\<lambda>p. fst p = k) d = []"
      using Cons.prems(1) True by (auto simp: filter_empty_conv image_iff)
    ultimately show ?thesis by simp
  next
    case False
    with Cons show ?thesis by (cases p) auto
  qed
qed

lemma send_Inr:
  assumes "send hmac r = Inr (r', p)"
  obtains signature where "getSignature hmac r = Inr signature"
    and "r' = addParam r (StringParameter (js ''Signature'') signature)"
    and "getQueryString r' = Inr (join (js ''&'') (map (\<lambda>p. fst p @ js ''='' @ encoded (snd p)) (collect_input (parameters r'))))"
    and "list_all (\<lambda>p. encodable (snd p)) (collect_input (parameters r'))"
    and "url p = js ''https://'' @ host (credentials r) @ endpoint r @ js ''?'' @
           join (js ''&'') (map (\<lambda>p. fst p @ js ''='' @ encoded (snd p)) (collect_input (parameters r')))"
proof -
  from assms obtain signature where sig: "getSignature hmac r = Inr signature"
    by (auto simp: send_def split: sum.splits)
  let ?r = "addParam r (StringParameter (js ''Signature'') signature)"
  from assms sig obtain q where q: "getQueryString ?r = Inr q" and r': "r' = ?r"
    and p: "url p = js ''https://'' @ host (credentials ?r) @ endpoint ?r @ js ''?'' @ q"
    by (auto simp: send_def Let_def split: sum.splits)
  from q have ok: "list_all (\<lambda>p. encodable (snd p)) (collect_input (parameters ?r))"
    and qeq: "q = join (js ''&'') (map (\<lambda>p. fst p @ js ''='' @ encoded (snd p)) (collect_input (parameters ?r)))"
    by (auto simp: getQueryString_eq split: if_splits)
  show ?thesis
    using that [of signature] sig r' q ok p qeq by (simp add: addParam_def)
qed

text \<open>
  Claim C4, amended. The canonical mapping over which the signature is computed contains a
  \<open>Signature\<close> key exactly when the parameter sequence holds a scalar or timestamp
  parameter with the key \<open>Signature\<close>; so it contains none when no parameter of the
  sequence has this key. Whenever \<open>send\<close> reaches the network call, it has appended one
  \<open>Signature\<close> parameter holding the computed signature after signing, the canonical
  mapping of the query string has exactly one \<open>Signature\<close> property, whose value is
  that signature, and the query string holds the pair \<open>Signature=\<close> followed by the
  percent-encoded signature.
\<close>

theorem Signature_pair:
  "(js ''Signature'' \<in> set (obj_keys (collect_input (parameters r))) \<longleftrightarrow>
      (\<exists>p \<in> set (parameters r). (\<exists>v. p = StringParameter (js ''Signature'') v) \<or>
         (\<exists>t. p = TimestampParameter (js ''Signature'') t))) \<and>
   (send hmac r = Inr (r', p) \<longrightarrow>
      (\<exists>signature queryArray.
         getSignature hmac r = Inr signature \<and>
         parameters r' = parameters r @ [StringParameter (js ''Signature'') signature] \<and>
         filter (\<lambda>p. fst p = js ''Signature'') (collect_input (parameters r')) =
           [(js ''Signature'', signature)] \<and>
         queryArray = map (\<lambda>p. fst p @ js ''='' @ encoded (snd p)) (collect_input (parameters r')) \<and>
         url p = js ''https://'' @ host (credentials r) @ endpoint r @ js ''?'' @ join (js ''&'') queryArray \<and>
         js ''Signature='' @ encoded signature \<in> set queryArray))"
proof (intro conjI impI)
  show "js ''Signature'' \<in> set (obj_keys (collect_input (parameters r))) \<longleftrightarrow>
      (\<exists>p \<in> set (parameters r). (\<exists>v. p = StringParameter (js ''Signature'') v) \<or>
         (\<exists>t. p = TimestampParameter (js ''Signature'') t))"
    using keys_collect_input [of "parameters r"] serialize_Signature
    by (simp add: obj_keys_def)
next
  assume "send hmac r = Inr (r', p)"
  then obtain signature where sig: "getSignature hmac r = Inr signature"
    and r': "r' = addParam r (StringParameter (js ''Signature'') signature)"
    and u: "url p = js ''https://'' @ host (credentials r) @ endpoint r @ js ''?'' @
           join (js ''&'') (map (\<lambda>p. fst p @ js ''='' @ encoded (snd p)) (collect_input (parameters r')))"
    by (rule send_Inr)
  let ?input = "collect_input (parameters r')"
  have ps: "parameters r' = parameters r @ [StringParameter (js ''Signature'') signature]"
    by (simp add: r' addParam_def)
  have m: "map_of ?input (js ''Signature'') = Some signature"
    by (simp add: ps map_of_collect_input_snoc_scalar [OF Signature_not_proto])
  have f: "filter (\<lambda>p. fst p = js ''Signature'') ?input = [(js ''Signature'', signature)]"
    using distinct_collect_input m by (rule filter_key)
  have "(js ''Signature'', signature) \<in> set ?input"
    using m by (rule map_of_SomeD)
  then have "js ''Signature'' @ js ''='' @ encoded signature \<in>
      set (map (\<lambda>p. fst p @ js ''='' @ encoded (snd p)) ?input)"
    by force
  then have mem: "js ''Signature='' @ encoded signature \<in>
      set (map (\<lambda>p. fst p @ js ''='' @ encoded (snd p)) ?input)"
    by (simp add: js_def)
  show "\<exists>signature queryArray.
         getSignature hmac r = Inr signature \<and>
         parameters r' = parameters r @ [StringParameter (js ''Signature'') signature] \<and>
         filter (\<lambda>p. fst p = js ''Signature'') (collect_input (parameters r')) =
           [(js ''Signature'', signature)] \<and>
         queryArray = map (\<lambda>p. fst p @ js ''='' @ encoded (snd p)) (collect_input (parameters r')) \<and>
         url p = js ''https://'' @ host (credentials r) @ endpoint r @ js ''?'' @ join (js ''&'') queryArray \<and>
         js ''Signature='' @ encoded signature \<in> set queryArray"
    using sig ps f u mem by blast
qed

lemma length_join:
  "length (join sep xs) = sum_list (map length xs) + (length xs - 1) * length sep"
  by (induction sep xs rule: join.induct) simp_all

lemma sum_list_sorted_keys:
  "finite K \<Longrightarrow> sum_list (map f (sorted_list_of_set K)) = sum f K"
  by (simp add: sum_list_distinct_conv_sum_set)

lemma values_encodable:
  assumes "list_all (\<lambda>p. encodable (snd p)) input"
  shows "list_all (\<lambda>k. encodable (to_string (obj_get input k))) (sort (obj_keys input))"
proof -
  have "encodable (to_string (obj_get input k))" if "k \<in> set (obj_keys input)" for k
  proof -
    from that obtain v where "map_of input k = Some v"
      unfolding obj_keys_def by (metis map_of_eq_None_iff not_Some_eq set_map)
    moreover from this have "(k, v) \<in> set input" by (rule map_of_SomeD)
    ultimately show ?thesis
      using assms by (auto simp: list_all_iff obj_get_def to_string_def)
  qed
  then show ?thesis by (simp add: list_all_iff)
qed

lemma send_then_sign:
  assumes "send hmac r = Inr (r', p)"
  obtains signature where "getSignature hmac r = Inr signature"
    and "parameters r' = parameters r @ [StringParameter (js ''Signature'') signature]"
    and "obj_get (collect_input (parameters r')) (js ''Signature'') = Some signature"
    and "getStringToSign r' (endpoint r') =
      Inr (join [0x0A] [js ''POST'', host (credentials r'), endpoint r',
        join (js ''&'')
          (map (\<lambda>k. k @ js ''='' @ encoded (to_string (obj_get (collect_input (parameters r')) k)))
             (sort (obj_keys (collect_input (parameters r')))))])"
    and "js ''Signature'' \<in> set (sort (obj_keys (collect_input (parameters r'))))"
proof -
  from assms obtain signature where sig: "getSignature hmac r = Inr signature"
    and r': "r' = addParam r (StringParameter (js ''Signature'') signature)"
    and ok: "list_all (\<lambda>p. encodable (snd p)) (collect_input (parameters r'))"
    by (rule send_Inr)
  let ?input = "collect_input (parameters r')"
  have ps: "parameters r' = parameters r @ [StringParameter (js ''Signature'') signature]"
    by (simp add: r' addParam_def)
  have m: "obj_get ?input (js ''Signature'') = Some signature"
    by (simp add: obj_get_def ps map_of_collect_input_snoc_scalar [OF Signature_not_proto])
  then have "js ''Signature'' \<in> fst ` set ?input"
    unfolding obj_get_def by (metis map_of_eq_None_iff option.distinct(1))
  then have k: "js ''Signature'' \<in> set (sort (obj_keys ?input))"
    by (simp add: obj_keys_def)
  have s: "getStringToSign r' (endpoint r') =
      Inr (join [0x0A] [js ''POST'', host (credentials r'), endpoint r',
        join (js ''&'')
          (map (\<lambda>k. k @ js ''='' @ encoded (to_string (obj_get ?input k))) (sort (obj_keys ?input)))])"
    using values_encodable [OF ok] by (simp only: getStringToSign_eq if_True)
  show ?thesis
    using that [OF sig ps m s k] .
qed

lemma sorted_keys_set:
  "sort (obj_keys (collect_input ps)) = sorted_list_of_set (fst ` set (collect_input ps))"
  by (simp only: sort_keys_collect_input keys_collect_input)

lemma length_join_sorted:
  "finite K \<Longrightarrow>
   length (join sep (map g (sorted_list_of_set K))) =
     sum (\<lambda>k. length (g k)) K + (card K - 1) * length sep"
  by (simp add: length_join comp_def sum_list_sorted_keys)

lemma join_sorted_longer:
  assumes fin: "finite K" and fresh: "x \<notin> K" and same: "\<And>k. k \<in> K \<Longrightarrow> g' k = g k"
    and pos: "g' x \<noteq> []"
  shows "length (join sep (map g (sorted_list_of_set K))) <
     length (join sep (map g' (sorted_list_of_set (insert x K))))"
proof -
  have "sum (\<lambda>k. length (g' k)) (insert x K) = length (g' x) + sum (\<lambda>k. length (g' k)) K"
    using fin fresh by (rule sum.insert)
  also have "sum (\<lambda>k. length (g' k)) K = sum (\<lambda>k. length (g k)) K"
    using same by (intro sum.cong) simp_all
  finally have s: "sum (\<lambda>k. length (g' k)) (insert x K) = length (g' x) + sum (\<lambda>k. length (g k)) K" .
  have c: "card (insert x K) = Suc (card K)"
    using fin fresh by simp
  have "length (join sep (map g' (sorted_list_of_set (insert x K)))) =
      length (g' x) + sum (\<lambda>k. length (g k)) K + card K * length sep"
    using fin by (simp only: length_join_sorted finite_insert s c diff_Suc_1)
  moreover have "length (join sep (map g (sorted_list_of_set K))) =
      sum (\<lambda>k. length (g k)) K + (card K - 1) * length sep"
    using fin by (rule length_join_sorted)
  moreover have "0 < length (g' x)" using pos by simp
  moreover have "(card K - 1) * length sep \<le> card K * length sep"
    by (simp add: mult_le_mono1)
  ultimately show ?thesis by linarith
qed

lemma pairs_longer:
  fixes ps :: "parameter list" and signature :: jstring
  defines "input \<equiv> collect_input ps"
    and "input' \<equiv> collect_input (ps @ [StringParameter (js ''Signature'') signature])"
  assumes fresh: "js ''Signature'' \<notin> set (obj_keys input)"
  shows "length (join (js ''&'')
             (map (\<lambda>k. k @ js ''='' @ encoded (to_string (obj_get input k))) (sort (obj_keys input))))
       < length (join (js ''&'')
             (map (\<lambda>k. k @ js ''='' @ encoded (to_string (obj_get input' k))) (sort (obj_keys input'))))"
proof -
  let ?S = "js ''Signature''"
  let ?K = "fst ` set input"
  have m: "map_of input' = (map_of input)(?S \<mapsto> signature)"
    unfolding input_def input'_def by (rule map_of_collect_input_snoc_scalar [OF Signature_not_proto])
  have "fst ` set input' = dom (map_of input')"
    by (simp only: dom_map_of_conv_image_fst)
  also have "\<dots> = insert ?S (dom (map_of input))"
    by (simp add: m)
  finally have K': "fst ` set input' = insert ?S ?K"
    by (simp only: dom_map_of_conv_image_fst)
  have notin: "?S \<notin> ?K"
    using fresh by (simp add: obj_keys_def)
  have same: "k @ js ''='' @ encoded (to_string (obj_get input' k)) =
      k @ js ''='' @ encoded (to_string (obj_get input k))" if "k \<in> ?K" for k
  proof -
    from that notin have "k \<noteq> ?S" by blast
    then show ?thesis by (simp add: obj_get_def m)
  qed
  have ks: "sort (obj_keys input) = sorted_list_of_set ?K"
    unfolding input_def by (rule sorted_keys_set)
  have "sort (obj_keys input') = sorted_list_of_set (fst ` set input')"
    unfolding input'_def by (rule sorted_keys_set)
  then have ks': "sort (obj_keys input') = sorted_list_of_set (insert ?S ?K)"
    by (simp only: K')
  have pos: "?S @ js ''='' @ encoded (to_string (obj_get input' ?S)) \<noteq> []"
    by (simp add: js_def)
  have "finite ?K" by simp
  then have "length (join (js ''&'')
        (map (\<lambda>k. k @ js ''='' @ encoded (to_string (obj_get input k))) (sorted_list_of_set ?K)))
      < length (join (js ''&'')
        (map (\<lambda>k. k @ js ''='' @ encoded (to_string (obj_get input' k)))
          (sorted_list_of_set (insert ?S ?K))))"
    using notin same pos
    by (rule join_sorted_longer
        [where g = "\<lambda>k. k @ js ''='' @ encoded (to_string (obj_get input k))"
          and g' = "\<lambda>k. k @ js ''='' @ encoded (to_string (obj_get input' k))"])
  then show ?thesis
    by (simp only: ks ks')
qed

section \<open>Sending a request twice\<close>

lemma getSignature_Inr:
  assumes "getSignature hmac r = Inr signature"
  shows "getStringToSign r (endpoint r) =
     Inr (join [0x0A] [js ''POST'', host (credentials r), endpoint r,
       join (js ''&'')
         (map (\<lambda>k. k @ js ''='' @ encoded (to_string (obj_get (collect_input (parameters r)) k)))
            (sort (obj_keys (collect_input (parameters r)))))])"
proof -
  from assms obtain s where "getStringToSign r (endpoint r) = Inr s"
    by (auto simp: getSignature_def split: sum.splits)
  then show ?thesis
    by (auto simp: getStringToSign_eq split: if_splits)
qed

text \<open>
  Claim C10. \<open>send\<close> appends the computed signature to the request's own parameter
  sequence as an ordinary \<open>Signature\<close> parameter. Any later canonicalization of the same
  request builds its mapping with the property \<open>Signature\<close> holding that signature, and
  the string to sign of a second \<open>send\<close> holds the pair \<open>Signature=\<close> followed by the
  encoded first signature among its pairs: the second signature is computed over the first.
  When the request had no \<open>Signature\<close> key before, the second string to sign differs
  from the first.
\<close>

theorem second_send_signs_first_signature:
  "send hmac r = Inr (r', p) \<Longrightarrow>
     \<exists>signature pairs.
       getSignature hmac r = Inr signature \<and>
       parameters r' = parameters r @ [StringParameter (js ''Signature'') signature] \<and>
       obj_get (collect_input (parameters r')) (js ''Signature'') = Some signature \<and>
       getStringToSign r' (endpoint r') =
         Inr (join [0x0A] [js ''POST'', host (credentials r'), endpoint r', join (js ''&'') pairs]) \<and>
       js ''Signature='' @ encoded signature \<in> set pairs \<and>
       (js ''Signature'' \<notin> set (obj_keys (collect_input (parameters r))) \<longrightarrow>
          getStringToSign r' (endpoint r') \<noteq> getStringToSign r (endpoint r))"
proof -
  assume sent: "send hmac r = Inr (r', p)"
  then obtain signature where sig: "getSignature hmac r = Inr signature"
    and ps: "parameters r' = parameters r @ [StringParameter (js ''Signature'') signature]"
    and m: "obj_get (collect_input (parameters r')) (js ''Signature'') = Some signature"
    and s': "getStringToSign r' (endpoint r') =
      Inr (join [0x0A] [js ''POST'', host (credentials r'), endpoint r',
        join (js ''&'')
          (map (\<lambda>k. k @ js ''='' @ encoded (to_string (obj_get (collect_input (parameters r')) k)))
             (sort (obj_keys (collect_input (parameters r')))))])"
    and k: "js ''Signature'' \<in> set (sort (obj_keys (collect_input (parameters r'))))"
    by (rule send_then_sign)
  let ?input = "collect_input (parameters r)"
  let ?input' = "collect_input (parameters r')"
  let ?pairs = "map (\<lambda>k. k @ js ''='' @ encoded (to_string (obj_get ?input k))) (sort (obj_keys ?input))"
  let ?pairs' = "map (\<lambda>k. k @ js ''='' @ encoded (to_string (obj_get ?input' k))) (sort (obj_keys ?input'))"
  from sent obtain signature' where "r' = addParam r (StringParameter (js ''Signature'') signature')"
    by (rule send_Inr)
  then have same: "endpoint r' = endpoint r" "credentials r' = credentials r"
    by (simp_all add: addParam_def)
  have "js ''Signature'' @ js ''='' @ encoded (to_string (obj_get ?input' (js ''Signature''))) \<in> set ?pairs'"
    using k unfolding set_map by (rule imageI)
  moreover have "js ''Signature'' @ js ''='' @ encoded (to_string (obj_get ?input' (js ''Signature''))) =
      js ''Signature='' @ encoded signature"
    by (simp only: m to_string_def option.case) (simp add: js_def)
  ultimately have mem: "js ''Signature='' @ encoded signature \<in> set ?pairs'"
    by (simp only:)
  have diff: "getStringToSign r' (endpoint r') \<noteq> getStringToSign r (endpoint r)"
    if fresh: "js ''Signature'' \<notin> set (obj_keys ?input)"
  proof
    assume eq: "getStringToSign r' (endpoint r') = getStringToSign r (endpoint r)"
    have "length (join (js ''&'') ?pairs) < length (join (js ''&'') ?pairs')"
      using pairs_longer [OF fresh, of signature] by (simp only: ps)
    moreover have "join [0x0A] [js ''POST'', host (credentials r), endpoint r, join (js ''&'') ?pairs'] =
        join [0x0A] [js ''POST'', host (credentials r), endpoint r, join (js ''&'') ?pairs]"
      using eq s' getSignature_Inr [OF sig] by (simp only: same sum.inject)
    then have "join (js ''&'') ?pairs' = join (js ''&'') ?pairs"
      by simp
    ultimately show False by simp
  qed
  show ?thesis
    using sig ps m s' mem diff by blast
qed

section \<open>The order of insertion\<close>

lemma mset_concat_map_cong:
  "mset ps' = mset ps \<Longrightarrow> mset (concat (map f ps')) = mset (concat (map f ps))"
proof -
  assume eq: "mset ps' = mset ps"
  have "mset (concat (map f qs)) = sum_mset (image_mset (\<lambda>p. mset (f p)) (mset qs))" for qs
    by (simp add: mset_concat comp_def flip: sum_mset_sum_list)
  then show ?thesis by (simp add: eq)
qed

lemma keys_concat_serialize:
  "map fst (concat (map serialize qs)) = concat (map (obj_keys \<circ> serialize) qs)"
  by (simp add: map_concat obj_keys_def comp_def)

lemma permuted_mapping:
  assumes perm: "mset ps' = mset ps"
    and disjoint: "distinct (concat (map (obj_keys \<circ> serialize) ps))"
  shows "map_of (collect_input ps') = map_of (collect_input ps)"
proof -
  let ?xs = "concat (map serialize (rev ps))" and ?xs' = "concat (map serialize (rev ps'))"
  have r: "mset (rev ps') = mset ps" "mset (rev ps) = mset ps"
    using perm by simp_all
  have "mset (map fst ?xs) = mset (concat (map (obj_keys \<circ> serialize) ps))"
    unfolding keys_concat_serialize using r(2) by (rule mset_concat_map_cong)
  then have d: "distinct (map fst ?xs)"
    using disjoint by (metis mset_eq_imp_distinct_iff)
  have "mset (map fst ?xs') = mset (concat (map (obj_keys \<circ> serialize) ps))"
    unfolding keys_concat_serialize using r(1) by (rule mset_concat_map_cong)
  then have d': "distinct (map fst ?xs')"
    using disjoint by (metis mset_eq_imp_distinct_iff)
  have "mset ?xs' = mset ?xs"
    using r by (intro mset_concat_map_cong) simp
  then have "set ?xs' = set ?xs"
    by (rule mset_eq_setD)
  with d d' have "map_of ?xs' = map_of ?xs"
    by (simp only: map_of_inject_set)
  then show ?thesis
    by (simp only: map_of_collect_input)
qed

lemma permuted_keys:
  assumes "mset ps' = mset ps"
  shows "sort (obj_keys (collect_input ps')) = sort (obj_keys (collect_input ps))"
proof -
  have "set ps' = set ps" using assms by (rule mset_eq_setD)
  then show ?thesis by (simp only: sort_keys_collect_input)
qed

text \<open>
  Claim C5, amended. Canonicalization and signing are functions of their inputs; and for
  two parameter sequences with the same content in any order, in which no key is
  serialized by two parameters, the string to sign is the same string, and so is the
  signature under the same HMAC, credentials and endpoint. (When two parameters serialize
  the same key, the later one wins, and the order matters.)
\<close>

theorem string_to_sign_order_independent:
  assumes "mset ps' = mset ps"
    and "distinct (concat (map (obj_keys \<circ> serialize) ps))"
  shows "getStringToSign (r\<lparr>parameters := ps'\<rparr>) ep = getStringToSign (r\<lparr>parameters := ps\<rparr>) ep \<and>
    getSignature hmac (r\<lparr>parameters := ps'\<rparr>) = getSignature hmac (r\<lparr>parameters := ps\<rparr>)"
proof -
  have "obj_get (collect_input ps') = obj_get (collect_input ps)"
    using permuted_mapping [OF assms] by (intro ext) (simp add: obj_get_def)
  then have "getStringToSign (r\<lparr>parameters := ps'\<rparr>) e = getStringToSign (r\<lparr>parameters := ps\<rparr>) e" for e
    using permuted_keys [OF assms(1)] by (simp add: getStringToSign_eq)
  then show ?thesis
    by (simp add: getSignature_def split: sum.splits)
qed

section \<open>The signature is the base64 encoding of the digest\<close>

lemma sextet0: "drop_bit 18 (push_bit 16 (ucast a) OR push_bit 8 (ucast b) OR ucast c :: 32 word) AND 0x3F = ucast (drop_bit 2 a)"
  for a b c :: "8 word"
proof -
  have m: "(0x3F :: 32 word) = mask 6" by (simp add: mask_eq_exp_minus_1)
  show ?thesis
    unfolding m
    by (rule bit_word_eqI) (auto simp: bit_simps dest: bit_imp_le_length)
qed

lemma sextet1: "drop_bit 12 (push_bit 16 (ucast a) OR push_bit 8 (ucast b) OR ucast c :: 32 word) AND 0x3F = ucast (push_bit 4 (a AND 3) OR drop_bit 4 b)"
  for a b c :: "8 word"
proof -
  have m: "(0x3F :: 32 word) = mask 6" "(3 :: 8 word) = mask 2" by (simp_all add: mask_eq_exp_minus_1)
  show ?thesis
    unfolding m
    by (rule bit_word_eqI) (auto simp: bit_simps dest: bit_imp_le_length)
qed

lemma sextet2: "drop_bit 6 (push_bit 16 (ucast a) OR push_bit 8 (ucast b) OR ucast c :: 32 word) AND 0x3F = ucast (push_bit 2 (b AND 15) OR drop_bit 6 c)"
  for a b c :: "8 word"
proof -
  have m: "(0x3F :: 32 word) = mask 6" "(15 :: 8 word) = mask 4" by (simp_all add: mask_eq_exp_minus_1)
  show ?thesis
    unfolding m
    by (rule bit_word_eqI) (auto simp: bit_simps dest: bit_imp_le_length)
qed

lemma sextet3: "(push_bit 16 (ucast a) OR push_bit 8 (ucast b) OR ucast c :: 32 word) AND 0x3F = ucast (c AND 63)"
  for a b c :: "8 word"
proof -
  have m: "(0x3F :: 32 word) = mask 6" "(63 :: 8 word) = mask 6" by (simp_all add: mask_eq_exp_minus_1)
  show ?thesis
    unfolding m
    by (rule bit_word_eqI) (auto simp: bit_simps dest: bit_imp_le_length)
qed

lemma length_digest_hex: "length (digest_hex bs) = 2 * length bs"
  by (induction bs) (simp_all add: digest_hex_def)

lemma digest_hex_append: "digest_hex (xs @ ys) = digest_hex xs @ digest_hex ys"
  by (simp add: digest_hex_def)

lemma digest_hex_Cons:
  "digest_hex (a # bs) = hex_digit (unat a div 16) # hex_digit (unat a mod 16) # digest_hex bs"
  by (simp add: digest_hex_def)

lemma charAt_digest_hex:
  "charAt (digest_hex (pre @ rest)) (2 * length pre + m) = charAt (digest_hex rest) m"
  by (simp add: charAt_def digest_hex_append length_digest_hex nth_append)

lemma indexOf_hex_digit: "d < 16 \<Longrightarrow> indexOf hex [hex_digit d] = int d"
proof -
  assume "d < 16"
  then have "d = 0 \<or> d = 1 \<or> d = 2 \<or> d = 3 \<or> d = 4 \<or> d = 5 \<or> d = 6 \<or> d = 7 \<or> d = 8 \<or>
      d = 9 \<or> d = 10 \<or> d = 11 \<or> d = 12 \<or> d = 13 \<or> d = 14 \<or> d = 15"
    by arith
  then show ?thesis
    by (elim disjE) (simp_all add: indexOf_def hex_def hex_digit_def js_def)
qed

lemma nibbles: "push_bit 4 (int (unat a div 16)) + int (unat a mod 16) = uint a"
  for a :: octet
proof -
  have "uint a = int (unat a div 16 * 16 + unat a mod 16)"
    by (simp only: div_mult_mod_eq uint_nat)
  also have "\<dots> = int (unat a div 16) * 16 + int (unat a mod 16)"
    by (simp only: of_nat_add of_nat_mult of_nat_numeral)
  also have "int (unat a div 16) * 16 = push_bit 4 (int (unat a div 16))"
    by (simp only: push_bit_eq_mult) simp
  finally show ?thesis by (rule sym)
qed

lemma charAt_tab:
  fixes w :: "32 word" and s :: octet
  assumes "w AND 0x3F = ucast s"
  shows "charAt tab (unat (w AND 0x3F)) = [b64 s]"
proof -
  have "w AND 0x3F \<le> 0x3F" by (rule word_and_le1)
  then have bound: "unat (w AND 0x3F) < 64"
    by (simp add: word_le_nat_alt)
  have "unat (ucast s :: 32 word) = unat s"
    by (simp add: unsigned_ucast_eq take_bit_nat_eq_self unsigned_less [THEN less_trans])
  with assms have "unat (w AND 0x3F) = unat s" by simp
  moreover have "length tab = 64" by (simp add: tab_def js_def)
  moreover have "tab = base64_alphabet" by (simp add: tab_def base64_alphabet_def)
  ultimately show ?thesis
    using bound by (simp add: charAt_def b64_def)
qed

lemma octet_nibble_bounds: "unat a div 16 < 16" "unat a mod 16 < 16" for a :: octet
proof -
  have "unat a < 256" using unsigned_less [of a] by simp
  then show "unat a div 16 < 16" by simp
  show "unat a mod 16 < 16" by simp
qed

text \<open>The value that two hexadecimal digits of the digest stand for.\<close>

lemma hex_pair:
  "push_bit 4 (indexOf hex [hex_digit (unat a div 16)]) + indexOf hex [hex_digit (unat a mod 16)] = uint a"
  for a :: octet
  by (simp only: indexOf_hex_digit octet_nibble_bounds nibbles)

lemma charAt_hex:
  "charAt (digest_hex (a # bs)) 0 = [hex_digit (unat a div 16)]"
  "charAt (digest_hex (a # bs)) 1 = [hex_digit (unat a mod 16)]"
  "charAt (digest_hex (a # b # bs)) 2 = [hex_digit (unat b div 16)]"
  "charAt (digest_hex (a # b # bs)) 3 = [hex_digit (unat b mod 16)]"
  "charAt (digest_hex (a # b # c # bs)) 4 = [hex_digit (unat c div 16)]"
  "charAt (digest_hex (a # b # c # bs)) 5 = [hex_digit (unat c mod 16)]"
  by (simp_all add: charAt_def digest_hex_Cons)

lemma charAt_digest_hex0:
  "charAt (digest_hex (pre @ rest)) (2 * length pre) = charAt (digest_hex rest) 0"
  using charAt_digest_hex [of pre rest 0] by simp

lemma hex_loop_step:
  "i < length input \<Longrightarrow>
   hex_loop input i output =
     (let len = length input;
          c1 = push_bit 4 (indexOf hex (charAt input i)) + indexOf hex (charAt input (i + 1));
          c2 = (if i + 2 < len then push_bit 4 (indexOf hex (charAt input (i + 2))) else 0) +
               (if i + 3 < len then indexOf hex (charAt input (i + 3)) else 0);
          c3 = (if i + 4 < len then push_bit 4 (indexOf hex (charAt input (i + 4))) else 0) +
               (if i + 5 < len then indexOf hex (charAt input (i + 5)) else 0);
          triplet = push_bit 16 (word_of_int c1) OR push_bit 8 (word_of_int c2) OR word_of_int c3
      in hex_loop input (i + 6)
           (output @ sextet input i triplet 0 @ sextet input i triplet 1 @
            sextet input i triplet 2 @ sextet input i triplet 3))"
  by (subst hex_loop.simps) simp

lemma hex_loop_done: "length input \<le> i \<Longrightarrow> hex_loop input i output = output"
  by (subst hex_loop.simps) simp

lemma hex_loop_three:
  fixes a b c :: octet
  defines "T \<equiv> push_bit 16 (ucast a) OR push_bit 8 (ucast b) OR ucast c :: 32 word"
  shows "hex_loop (digest_hex (pre @ a # b # c # bs)) (2 * length pre) out =
     hex_loop (digest_hex (pre @ a # b # c # bs)) (2 * length pre + 6)
       (out @ [b64 (drop_bit 2 a), b64 (push_bit 4 (a AND 3) OR drop_bit 4 b),
               b64 (push_bit 2 (b AND 15) OR drop_bit 6 c), b64 (c AND 63)])"
proof -
  let ?H = "digest_hex (pre @ a # b # c # bs)"
  let ?i = "2 * length pre"
  have len: "length ?H = ?i + 6 + 2 * length bs"
    by (simp add: length_digest_hex)
  have c1: "push_bit 4 (indexOf hex (charAt ?H ?i)) + indexOf hex (charAt ?H (?i + 1)) = uint a"
    by (simp only: charAt_digest_hex charAt_digest_hex0 charAt_hex hex_pair)
  have c2: "push_bit 4 (indexOf hex (charAt ?H (?i + 2))) + indexOf hex (charAt ?H (?i + 3)) = uint b"
    by (simp only: charAt_digest_hex charAt_hex hex_pair)
  have c3: "push_bit 4 (indexOf hex (charAt ?H (?i + 4))) + indexOf hex (charAt ?H (?i + 5)) = uint c"
    by (simp only: charAt_digest_hex charAt_hex hex_pair)
  have s0: "sextet ?H ?i T 0 = [b64 (drop_bit 2 a)]"
    using charAt_tab [of "drop_bit 18 T" "drop_bit 2 a"] sextet0 [of a b c]
    by (simp add: sextet_def len T_def)
  have s1: "sextet ?H ?i T 1 = [b64 (push_bit 4 (a AND 3) OR drop_bit 4 b)]"
    using charAt_tab [of "drop_bit 12 T" "push_bit 4 (a AND 3) OR drop_bit 4 b"] sextet1 [of a b c]
    by (simp add: sextet_def len T_def)
  have s2: "sextet ?H ?i T 2 = [b64 (push_bit 2 (b AND 15) OR drop_bit 6 c)]"
    using charAt_tab [of "drop_bit 6 T" "push_bit 2 (b AND 15) OR drop_bit 6 c"] sextet2 [of a b c]
    by (simp add: sextet_def len T_def)
  have s3: "sextet ?H ?i T 3 = [b64 (c AND 63)]"
    using charAt_tab [of T "c AND 63"] sextet3 [of a b c]
    by (simp add: sextet_def len T_def)
  have T: "push_bit 16 (word_of_int (uint a)) OR push_bit 8 (word_of_int (uint b)) OR word_of_int (uint c) = T"
    by (simp only: T_def ucast_eq)
  have lt: "?i < length ?H" "?i + 2 < length ?H" "?i + 3 < length ?H" "?i + 4 < length ?H"
    "?i + 5 < length ?H"
    using len by simp_all
  have "hex_loop ?H ?i out =
      hex_loop ?H (?i + 6) (out @ sextet ?H ?i T 0 @ sextet ?H ?i T 1 @ sextet ?H ?i T 2 @ sextet ?H ?i T 3)"
    by (subst hex_loop_step [OF lt(1)]) (simp only: Let_def lt if_True c1 c2 c3 T)
  then show ?thesis
    by (simp only: s0 s1 s2 s3 append.simps)
qed

lemma sextet_one:
  fixes a :: octet
  shows "drop_bit 18 (push_bit 16 (ucast a) :: 32 word) AND 0x3F = ucast (drop_bit 2 a)"
    and "drop_bit 12 (push_bit 16 (ucast a) :: 32 word) AND 0x3F = ucast (push_bit 4 (a AND 3))"
proof -
  have m: "(0x3F :: 32 word) = mask 6" "(3 :: 8 word) = mask 2" by (simp_all add: mask_eq_exp_minus_1)
  show "drop_bit 18 (push_bit 16 (ucast a) :: 32 word) AND 0x3F = ucast (drop_bit 2 a)"
    unfolding m by (rule bit_word_eqI) (auto simp: bit_simps dest: bit_imp_le_length)
  show "drop_bit 12 (push_bit 16 (ucast a) :: 32 word) AND 0x3F = ucast (push_bit 4 (a AND 3))"
    unfolding m by (rule bit_word_eqI) (auto simp: bit_simps dest: bit_imp_le_length)
qed

lemma sextet_two:
  fixes a b :: octet
  shows "drop_bit 18 (push_bit 16 (ucast a) OR push_bit 8 (ucast b) :: 32 word) AND 0x3F = ucast (drop_bit 2 a)"
    and "drop_bit 12 (push_bit 16 (ucast a) OR push_bit 8 (ucast b) :: 32 word) AND 0x3F =
      ucast (push_bit 4 (a AND 3) OR drop_bit 4 b)"
    and "drop_bit 6 (push_bit 16 (ucast a) OR push_bit 8 (ucast b) :: 32 word) AND 0x3F =
      ucast (push_bit 2 (b AND 15))"
proof -
  have m: "(0x3F :: 32 word) = mask 6" "(3 :: 8 word) = mask 2" "(15 :: 8 word) = mask 4"
    by (simp_all add: mask_eq_exp_minus_1)
  show "drop_bit 18 (push_bit 16 (ucast a) OR push_bit 8 (ucast b) :: 32 word) AND 0x3F = ucast (drop_bit 2 a)"
    unfolding m by (rule bit_word_eqI) (auto simp: bit_simps dest: bit_imp_le_length)
  show "drop_bit 12 (push_bit 16 (ucast a) OR push_bit 8 (ucast b) :: 32 word) AND 0x3F =
      ucast (push_bit 4 (a AND 3) OR drop_bit 4 b)"
    unfolding m by (rule bit_word_eqI) (auto simp: bit_simps dest: bit_imp_le_length)
  show "drop_bit 6 (push_bit 16 (ucast a) OR push_bit 8 (ucast b) :: 32 word) AND 0x3F =
      ucast (push_bit 2 (b AND 15))"
    unfolding m by (rule bit_word_eqI) (auto simp: bit_simps dest: bit_imp_le_length)
qed

text \<open>The four turns of the inner loop, by the number of octets left.\<close>

lemma sextet_char:
  fixes T :: "32 word" and s :: octet
  assumes "4 * i + 6 * j \<le> 4 * length input" and "drop_bit (6 * (3 - j)) T AND 0x3F = ucast s"
  shows "sextet input i T j = [b64 s]"
proof -
  have "sextet input i T j = charAt tab (unat (drop_bit (6 * (3 - j)) T AND 0x3F))"
    using assms(1) by (simp add: sextet_def)
  then show ?thesis
    by (simp only: charAt_tab [OF assms(2)])
qed

lemma sextet_pad: "4 * length input < 4 * i + 6 * j \<Longrightarrow> sextet input i T j = [0x3D]"
  by (simp add: sextet_def b64pad_def js_def)

lemma shifts: "6 * (3 - 0) = (18::nat)" "6 * (3 - 1) = (12::nat)" "6 * (3 - 2) = (6::nat)"
  "6 * (3 - 3) = (0::nat)"
  by simp_all

lemma hex_loop_one:
  fixes a :: octet
  shows "hex_loop (digest_hex (pre @ [a])) (2 * length pre) out = out @ base64 [a]"
proof -
  define T :: "32 word" where "T = push_bit 16 (ucast a)"
  let ?H = "digest_hex (pre @ [a])"
  let ?i = "2 * length pre"
  have len: "length ?H = ?i + 2"
    by (simp add: length_digest_hex)
  have c1: "push_bit 4 (indexOf hex (charAt ?H ?i)) + indexOf hex (charAt ?H (?i + 1)) = uint a"
    by (simp only: charAt_digest_hex charAt_digest_hex0 charAt_hex hex_pair)
  have s0: "sextet ?H ?i T 0 = [b64 (drop_bit 2 a)]"
  proof (rule sextet_char)
    show "4 * ?i + 6 * 0 \<le> 4 * length ?H" using len by simp
    show "drop_bit (6 * (3 - 0)) T AND 0x3F = ucast (drop_bit 2 a)"
      by (simp only: shifts T_def sextet_one)
  qed
  have s1: "sextet ?H ?i T 1 = [b64 (push_bit 4 (a AND 3))]"
  proof (rule sextet_char)
    show "4 * ?i + 6 * 1 \<le> 4 * length ?H" using len by simp
    show "drop_bit (6 * (3 - 1)) T AND 0x3F = ucast (push_bit 4 (a AND 3))"
      by (simp only: shifts T_def sextet_one)
  qed
  have s2: "sextet ?H ?i T 2 = [0x3D]"
    by (rule sextet_pad) (simp add: len)
  have s3: "sextet ?H ?i T 3 = [0x3D]"
    by (rule sextet_pad) (simp add: len)
  have "word_of_int (0 + 0) = (0 :: 32 word)" by simp
  then have T: "push_bit 16 (word_of_int (uint a)) OR push_bit 8 (word_of_int (0 + 0)) OR word_of_int (0 + 0) = T"
    by (simp only: T_def ucast_eq push_bit_of_0 or.right_neutral)
  have lt: "?i < length ?H" "\<not> ?i + 2 < length ?H" "\<not> ?i + 3 < length ?H" "\<not> ?i + 4 < length ?H"
    "\<not> ?i + 5 < length ?H"
    using len by simp_all
  have "hex_loop ?H ?i out =
      hex_loop ?H (?i + 6) (out @ sextet ?H ?i T 0 @ sextet ?H ?i T 1 @ sextet ?H ?i T 2 @ sextet ?H ?i T 3)"
    by (subst hex_loop_step [OF lt(1)]) (simp only: Let_def lt if_True if_False c1 T)
  also have "\<dots> = out @ sextet ?H ?i T 0 @ sextet ?H ?i T 1 @ sextet ?H ?i T 2 @ sextet ?H ?i T 3"
    by (rule hex_loop_done) (simp add: len)
  finally show ?thesis
    by (simp only: s0 s1 s2 s3 append.simps base64.simps)
qed

lemma hex_loop_two:
  fixes a b :: octet
  shows "hex_loop (digest_hex (pre @ [a, b])) (2 * length pre) out = out @ base64 [a, b]"
proof -
  define T :: "32 word" where "T = push_bit 16 (ucast a) OR push_bit 8 (ucast b)"
  let ?H = "digest_hex (pre @ [a, b])"
  let ?i = "2 * length pre"
  have len: "length ?H = ?i + 4"
    by (simp add: length_digest_hex)
  have c1: "push_bit 4 (indexOf hex (charAt ?H ?i)) + indexOf hex (charAt ?H (?i + 1)) = uint a"
    by (simp only: charAt_digest_hex charAt_digest_hex0 charAt_hex hex_pair)
  have c2: "push_bit 4 (indexOf hex (charAt ?H (?i + 2))) + indexOf hex (charAt ?H (?i + 3)) = uint b"
    by (simp only: charAt_digest_hex charAt_hex hex_pair)
  have s0: "sextet ?H ?i T 0 = [b64 (drop_bit 2 a)]"
  proof (rule sextet_char)
    show "4 * ?i + 6 * 0 \<le> 4 * length ?H" using len by simp
    show "drop_bit (6 * (3 - 0)) T AND 0x3F = ucast (drop_bit 2 a)"
      by (simp only: shifts T_def sextet_two)
  qed
  have s1: "sextet ?H ?i T 1 = [b64 (push_bit 4 (a AND 3) OR drop_bit 4 b)]"
  proof (rule sextet_char)
    show "4 * ?i + 6 * 1 \<le> 4 * length ?H" using len by simp
    show "drop_bit (6 * (3 - 1)) T AND 0x3F = ucast (push_bit 4 (a AND 3) OR drop_bit 4 b)"
      by (simp only: shifts T_def sextet_two)
  qed
  have s2: "sextet ?H ?i T 2 = [b64 (push_bit 2 (b AND 15))]"
  proof (rule sextet_char)
    show "4 * ?i + 6 * 2 \<le> 4 * length ?H" using len by simp
    show "drop_bit (6 * (3 - 2)) T AND 0x3F = ucast (push_bit 2 (b AND 15))"
      by (simp only: shifts T_def sextet_two)
  qed
  have s3: "sextet ?H ?i T 3 = [0x3D]"
    by (rule sextet_pad) (simp add: len)
  have "word_of_int (0 + 0) = (0 :: 32 word)" by simp
  then have T: "push_bit 16 (word_of_int (uint a)) OR push_bit 8 (word_of_int (uint b)) OR word_of_int (0 + 0) = T"
    by (simp only: T_def ucast_eq or.right_neutral)
  have lt: "?i < length ?H" "?i + 2 < length ?H" "?i + 3 < length ?H" "\<not> ?i + 4 < length ?H"
    "\<not> ?i + 5 < length ?H"
    using len by simp_all
  have "hex_loop ?H ?i out =
      hex_loop ?H (?i + 6) (out @ sextet ?H ?i T 0 @ sextet ?H ?i T 1 @ sextet ?H ?i T 2 @ sextet ?H ?i T 3)"
    by (subst hex_loop_step [OF lt(1)]) (simp only: Let_def lt if_True if_False c1 c2 T)
  also have "\<dots> = out @ sextet ?H ?i T 0 @ sextet ?H ?i T 1 @ sextet ?H ?i T 2 @ sextet ?H ?i T 3"
    by (rule hex_loop_done) (simp add: len)
  finally show ?thesis
    by (simp only: s0 s1 s2 s3 append.simps base64.simps)
qed

lemma hex_loop_digest:
  "hex_loop (digest_hex (pre @ rest)) (2 * length pre) out = out @ base64 rest"
proof (induction rest arbitrary: pre out rule: base64.induct)
  case 1
  show ?case
    by (simp add: hex_loop_done length_digest_hex)
next
  case (2 a)
  show ?case by (rule hex_loop_one)
next
  case (3 a b)
  show ?case by (rule hex_loop_two)
next
  case (4 a b c bs)
  let ?q = "[b64 (drop_bit 2 a), b64 (push_bit 4 (a AND 3) OR drop_bit 4 b),
               b64 (push_bit 2 (b AND 15) OR drop_bit 6 c), b64 (c AND 63)]"
  have idx: "2 * length pre + 6 = 2 * length (pre @ [a, b, c])" by simp
  have app: "pre @ a # b # c # bs = (pre @ [a, b, c]) @ bs" by simp
  have "hex_loop (digest_hex (pre @ a # b # c # bs)) (2 * length pre) out =
      hex_loop (digest_hex (pre @ a # b # c # bs)) (2 * length pre + 6) (out @ ?q)"
    by (rule hex_loop_three)
  also have "\<dots> = hex_loop (digest_hex ((pre @ [a, b, c]) @ bs)) (2 * length (pre @ [a, b, c])) (out @ ?q)"
    by (simp only: idx app)
  also have "\<dots> = (out @ ?q) @ base64 bs"
    by (rule "4.IH")
  finally show ?case
    by (simp only: base64.simps append_assoc)
qed

lemma hexStrToBase64_digest: "hexStrToBase64 (digest_hex bs) = base64 bs"
  using hex_loop_digest [of "[]" bs "[]"] by (simp add: hexStrToBase64_def)

lemma length_base64: "length (base64 bs) = 4 * ((length bs + 2) div 3)"
proof (induction bs rule: base64.induct)
  case (4 a b c bs)
  have "(length (a # b # c # bs) + 2) div 3 = (length bs + 2) div 3 + 1"
    by simp
  with 4 show ?case by (simp del: length_Cons)
qed simp_all

lemma pad_loop_base64: "pad_loop (base64 bs) = base64 bs"
  by (simp add: pad_loop_def length_base64)

lemma getSignature_eq:
  "getSignature hmac r =
     (case getStringToSign r (endpoint r) of
        Inl e \<Rightarrow> Inl e
      | Inr strToSign \<Rightarrow> Inr (base64 (hmac (secretKey (credentials r)) strToSign)))"
  by (simp add: getSignature_def hexStrToBase64_digest pad_loop_base64 split: sum.splits)

text \<open>
  Claim C2. The signature that \<open>getSignature\<close> returns, and \<open>send\<close> transmits, is the
  standard base64 encoding of the raw HMAC digest of the string to sign under the secret
  key: converting the hexadecimal digest with the digit table and then running the padding
  loop gives what a standard base64 encoder gives on the octets of the digest. The
  conversion alone already does, the padding loop adds nothing, and the length is a
  multiple of four (44 characters for a digest of 32 octets).
\<close>

theorem getSignature_base64:
  "getSignature hmac r =
     (case getStringToSign r (endpoint r) of
        Inl e \<Rightarrow> Inl e
      | Inr strToSign \<Rightarrow> Inr (base64 (hmac (secretKey (credentials r)) strToSign))) \<and>
   pad_loop (hexStrToBase64 (digest_hex digest)) = base64 digest \<and>
   hexStrToBase64 (digest_hex digest) = base64 digest \<and>
   length (base64 digest) = 4 * ((length digest + 2) div 3)"
  using getSignature_eq [of hmac r]
  by (simp add: hexStrToBase64_digest pad_loop_base64 length_base64)


section \<open>The example request, evaluated\<close>

lemma signature0: "base64 (hmac0 k m) = js ''AAECAwQFBgcICQoLDA0ODxAREhMUFRYXGBkaGxwdHh8=''"
  by (simp add: hmac0_def b64_def base64_alphabet_def js_def)

lemma string_to_sign0:
  "getStringToSign request0 (js ''/'') =
     Inr (js ''POST'' @ [0x0A] @ js ''example.test'' @ [0x0A] @ js ''/'' @ [0x0A] @
       js ''AWSAccessKeyId=AKID&SignatureMethod=HmacSHA256&SignatureVersion=2&Timestamp=2020-01-01T00%3A00%3A00.000Z'')"
  by (simp add: request0_def creds0_def eval_defs)

lemma query_string0:
  "getQueryString sent0 =
     Inr (js ''AWSAccessKeyId=AKID&SignatureMethod=HmacSHA256&SignatureVersion=2&Timestamp=2020-01-01T00%3A00%3A00.000Z&Signature=AAECAwQFBgcICQoLDA0ODxAREhMUFRYXGBkaGxwdHh8%3D'')"
  by (simp add: sent0_def request0_def creds0_def eval_defs)

lemma send0: "send hmac0 request0 = Inr (sent0, post0)"
proof -
  have e: "endpoint request0 = js ''/''" "host (credentials request0) = js ''example.test''"
    by (simp_all add: request0_def creds0_def new_Request_def addParam_def)
  have "getSignature hmac0 request0 = Inr (js ''AAECAwQFBgcICQoLDA0ODxAREhMUFRYXGBkaGxwdHh8='')"
    by (simp only: getSignature_eq e string_to_sign0 signature0 sum.case)
  moreover have "addParam request0 (StringParameter (js ''Signature'')
      (js ''AAECAwQFBgcICQoLDA0ODxAREhMUFRYXGBkaGxwdHh8='')) = sent0"
    by (simp only: sent0_def)
  moreover have "endpoint sent0 = js ''/''" "host (credentials sent0) = js ''example.test''"
    using e by (simp_all add: sent0_def addParam_def)
  ultimately show ?thesis
    by (simp add: send_def query_string0 post0_def js_def)
qed

section \<open>The theorems at the example request\<close>

lemma no_Signature0: "js ''Signature'' \<notin> set (obj_keys (collect_input (parameters request0)))"
  by (simp add: request0_def creds0_def eval_defs)

text \<open>Claim C4, amended: the theorem at the example request.\<close>

theorem Signature_pair_witness:
  "send hmac0 request0 = Inr (sent0, post0) \<and>
   js ''Signature'' \<notin> set (obj_keys (collect_input (parameters request0))) \<and>
   (\<exists>signature queryArray.
      getSignature hmac0 request0 = Inr signature \<and>
      parameters sent0 = parameters request0 @ [StringParameter (js ''Signature'') signature] \<and>
      filter (\<lambda>p. fst p = js ''Signature'') (collect_input (parameters sent0)) =
        [(js ''Signature'', signature)] \<and>
      queryArray = map (\<lambda>p. fst p @ js ''='' @ encoded (snd p)) (collect_input (parameters sent0)) \<and>
      url post0 = js ''https://'' @ host (credentials request0) @ endpoint request0 @ js ''?'' @
        join (js ''&'') queryArray \<and>
      js ''Signature='' @ encoded signature \<in> set queryArray)"
  using Signature_pair [of request0 hmac0 sent0 post0] send0 no_Signature0 by blast

text \<open>Claim C10: the theorem at the example request.\<close>

theorem second_send_witness:
  "send hmac0 request0 = Inr (sent0, post0) \<and>
   js ''Signature'' \<notin> set (obj_keys (collect_input (parameters request0))) \<and>
   (\<exists>signature pairs.
       getSignature hmac0 request0 = Inr signature \<and>
       parameters sent0 = parameters request0 @ [StringParameter (js ''Signature'') signature] \<and>
       obj_get (collect_input (parameters sent0)) (js ''Signature'') = Some signature \<and>
       getStringToSign sent0 (endpoint sent0) =
         Inr (join [0x0A] [js ''POST'', host (credentials sent0), endpoint sent0, join (js ''&'') pairs]) \<and>
       js ''Signature='' @ encoded signature \<in> set pairs) \<and>
   getStringToSign sent0 (endpoint sent0) \<noteq> getStringToSign request0 (endpoint request0)"
  using second_send_signs_first_signature [of hmac0 request0 sent0 post0] send0 no_Signature0 by blast

text \<open>
  Claim C4 says that, for every parameter sequence, the canonical mapping that is signed
  never contains a \<open>Signature\<close> key. \<open>addParam\<close> accepts a parameter with this key; then
  the mapping contains it and the string to sign holds the pair.
\<close>

theorem Signature_key_counterexample:
  "js ''Signature'' \<in>
     set (obj_keys (collect_input (parameters (addParam request0 (StringParameter (js ''Signature'') (js ''x'')))))) \<and>
   getStringToSign (addParam request0 (StringParameter (js ''Signature'') (js ''x''))) (js ''/'') =
     Inr (js ''POST'' @ [0x0A] @ js ''example.test'' @ [0x0A] @ js ''/'' @ [0x0A] @
       js ''AWSAccessKeyId=AKID&Signature=x&SignatureMethod=HmacSHA256&SignatureVersion=2&Timestamp=2020-01-01T00%3A00%3A00.000Z'')"
  by (simp add: request0_def creds0_def eval_defs)


text \<open>Claim C5, amended: the theorem at three parameters in two orders.\<close>

theorem string_to_sign_order_independent_witness:
  "mset [ListParameter (js ''MarketplaceId.Id'') [js ''M1''], StringParameter (js ''Action'') (js ''ListOrders''),
         StringParameter (js ''SellerId'') (js ''S1'')] =
   mset [StringParameter (js ''Action'') (js ''ListOrders''), StringParameter (js ''SellerId'') (js ''S1''),
         ListParameter (js ''MarketplaceId.Id'') [js ''M1'']] \<and>
   distinct (concat (map (obj_keys \<circ> serialize)
     [StringParameter (js ''Action'') (js ''ListOrders''), StringParameter (js ''SellerId'') (js ''S1''),
      ListParameter (js ''MarketplaceId.Id'') [js ''M1'']])) \<and>
   getStringToSign (request0\<lparr>parameters :=
       [ListParameter (js ''MarketplaceId.Id'') [js ''M1''], StringParameter (js ''Action'') (js ''ListOrders''),
        StringParameter (js ''SellerId'') (js ''S1'')]\<rparr>) (js ''/'') =
     getStringToSign (request0\<lparr>parameters :=
       [StringParameter (js ''Action'') (js ''ListOrders''), StringParameter (js ''SellerId'') (js ''S1''),
        ListParameter (js ''MarketplaceId.Id'') [js ''M1'']]\<rparr>) (js ''/'') \<and>
   getSignature hmac0 (request0\<lparr>parameters :=
       [ListParameter (js ''MarketplaceId.Id'') [js ''M1''], StringParameter (js ''Action'') (js ''ListOrders''),
        StringParameter (js ''SellerId'') (js ''S1'')]\<rparr>) =
     getSignature hmac0 (request0\<lparr>parameters :=
       [StringParameter (js ''Action'') (js ''ListOrders''), StringParameter (js ''SellerId'') (js ''S1''),
        ListParameter (js ''MarketplaceId.Id'') [js ''M1'']]\<rparr>)"
proof -
  have p: "mset [ListParameter (js ''MarketplaceId.Id'') [js ''M1''], StringParameter (js ''Action'') (js ''ListOrders''),
         StringParameter (js ''SellerId'') (js ''S1'')] =
   mset [StringParameter (js ''Action'') (js ''ListOrders''), StringParameter (js ''SellerId'') (js ''S1''),
         ListParameter (js ''MarketplaceId.Id'') [js ''M1'']]"
    by simp
  have d: "distinct (concat (map (obj_keys \<circ> serialize)
     [StringParameter (js ''Action'') (js ''ListOrders''), StringParameter (js ''SellerId'') (js ''S1''),
      ListParameter (js ''MarketplaceId.Id'') [js ''M1'']]))"
    by (simp add: serialize_scalar serialize_list obj_keys_def js_def num_to_string.simps digit_def
        del: serialize.simps)
  show ?thesis
    using string_to_sign_order_independent [OF p d, of request0 "js ''/''" hmac0] p d by simp
qed

text \<open>
  Claim C5 says that the same parameters in any insertion order give the same string to
  sign. Two parameters with the key \<open>A\<close> and different values, inserted in the two
  possible orders, give two different strings: the later value wins.
\<close>

theorem duplicate_key_order_counterexample:
  "mset (parameters (addParam (addParam request0 (StringParameter (js ''A'') (js ''1'')))
           (StringParameter (js ''A'') (js ''2'')))) =
   mset (parameters (addParam (addParam request0 (StringParameter (js ''A'') (js ''2'')))
           (StringParameter (js ''A'') (js ''1'')))) \<and>
   getStringToSign (addParam (addParam request0 (StringParameter (js ''A'') (js ''1'')))
       (StringParameter (js ''A'') (js ''2''))) (js ''/'') =
     Inr (js ''POST'' @ [0x0A] @ js ''example.test'' @ [0x0A] @ js ''/'' @ [0x0A] @
       js ''A=2&AWSAccessKeyId=AKID&SignatureMethod=HmacSHA256&SignatureVersion=2&Timestamp=2020-01-01T00%3A00%3A00.000Z'') \<and>
   getStringToSign (addParam (addParam request0 (StringParameter (js ''A'') (js ''2'')))
       (StringParameter (js ''A'') (js ''1''))) (js ''/'') =
     Inr (js ''POST'' @ [0x0A] @ js ''example.test'' @ [0x0A] @ js ''/'' @ [0x0A] @
       js ''A=1&AWSAccessKeyId=AKID&SignatureMethod=HmacSHA256&SignatureVersion=2&Timestamp=2020-01-01T00%3A00%3A00.000Z'')"
  by (simp add: request0_def creds0_def eval_defs)

section \<open>The percent-encoding is injective\<close>

lemma replace_append: "replace c r (xs @ ys) = replace c r xs @ replace c r ys"
  by (simp add: replace_def)

lemma replace5_append: "replace5 (xs @ ys) = replace5 xs @ replace5 ys"
  by (simp add: replace5_def replace_append)

lemma replace5_Nil: "replace5 [] = []"
  by (simp add: replace5_def replace_def)

lemma replace5_Cons: "replace5 (c # cs) = replace5 [c] @ replace5 cs"
  using replace5_append [of "[c]" cs] by simp

lemma urlEncode_replace5:
  "urlEncode s = (case encodeURIComponent s of Inl e \<Rightarrow> Inl e | Inr t \<Rightarrow> Inr (replace5 t))"
  by (simp add: urlEncode_def replace5_def split: sum.splits)

lemma code_unit_cases:
  fixes c :: code_unit
  shows "unat c < 65536" and "of_nat (unat c) = c"
  using unsigned_less [of c, where 'a = nat] by simp_all

lemma uriUnescaped_unat:
  "uriUnescaped c \<longleftrightarrow> unreserved (unat c) \<or> c \<in> {0x21, 0x27, 0x28, 0x29, 0x2A}"
  by (auto simp: uriUnescaped_def unreserved_def js_def word_le_nat_alt word_unat_eq_iff)

lemma replace5_single:
  "replace5 [c] = (if c \<in> {0x21, 0x27, 0x28, 0x29, 0x2A} then escape (unat c) else [c])"
  by (auto simp: replace5_def replace_def js_def escape_def utf8_def percent_def hex_upper_def)

lemma replace5_id: "(\<And>c. c \<in> set t \<Longrightarrow> c \<notin> {0x21, 0x27, 0x28, 0x29, 0x2A}) \<Longrightarrow> replace5 t = t"
proof (induction t)
  case Nil
  then show ?case by (simp add: replace5_Nil)
next
  case (Cons c t)
  have "replace5 (c # t) = replace5 [c] @ replace5 t" by (rule replace5_Cons)
  also have "replace5 [c] = [c]" using Cons.prems [of c] by (simp add: replace5_single)
  also have "replace5 t = t" using Cons.prems by (intro Cons.IH) simp
  finally show ?case by simp
qed

lemma hex_upper_range:
  "d < 16 \<Longrightarrow> (48 \<le> hex_upper d \<and> hex_upper d \<le> 57) \<or> (65 \<le> hex_upper d \<and> hex_upper d \<le> 70)"
proof -
  assume "d < 16"
  then have "d = 0 \<or> d = 1 \<or> d = 2 \<or> d = 3 \<or> d = 4 \<or> d = 5 \<or> d = 6 \<or> d = 7 \<or> d = 8 \<or>
      d = 9 \<or> d = 10 \<or> d = 11 \<or> d = 12 \<or> d = 13 \<or> d = 14 \<or> d = 15"
    by arith
  then show ?thesis
    by (elim disjE) (simp_all add: hex_upper_def)
qed

lemma utf8_bytes: "v < 0x110000 \<Longrightarrow> b \<in> set (utf8 v) \<Longrightarrow> b < 256"
  by (auto simp: utf8_def split: if_splits)

lemma percent_chars:
  "b < 256 \<Longrightarrow> c \<in> set (percent b) \<Longrightarrow> c = 0x25 \<or> (48 \<le> c \<and> c \<le> 57) \<or> (65 \<le> c \<and> c \<le> 70)"
  using hex_upper_range [of "b div 16"] hex_upper_range [of "b mod 16"]
  by (auto simp: percent_def)

lemma escape_chars:
  "v < 0x110000 \<Longrightarrow> c \<in> set (escape v) \<Longrightarrow> c = 0x25 \<or> (48 \<le> c \<and> c \<le> 57) \<or> (65 \<le> c \<and> c \<le> 70)"
  unfolding escape_def using utf8_bytes percent_chars by (auto simp del: set_concat simp: set_concat)

lemma replace5_escape: "v < 0x110000 \<Longrightarrow> replace5 (escape v) = escape v"
proof (rule replace5_id)
  fix c assume "v < 0x110000" "c \<in> set (escape v)"
  then have "c = 0x25 \<or> (48 \<le> c \<and> c \<le> 57) \<or> (65 \<le> c \<and> c \<le> 70)"
    by (rule escape_chars)
  then show "c \<notin> {0x21, 0x27, 0x28, 0x29, 0x2A}" by auto
qed

lemma pair_bounds:
  fixes c d :: code_unit
  assumes "\<not> (c < 0xD800 \<or> 0xDBFF < c)" "\<not> (d < 0xDC00 \<or> 0xDFFF < d)"
  shows "0x10000 \<le> (unat c - 0xD800) * 0x400 + (unat d - 0xDC00) + 0x10000"
    and "(unat c - 0xD800) * 0x400 + (unat d - 0xDC00) + 0x10000 < 0x110000"
proof -
  from assms have "0xD800 \<le> unat c" "unat c \<le> 0xDBFF" "0xDC00 \<le> unat d" "unat d \<le> 0xDFFF"
    by (simp_all add: word_less_nat_alt not_less word_le_nat_alt)
  then show "(unat c - 0xD800) * 0x400 + (unat d - 0xDC00) + 0x10000 < 0x110000" by simp
qed simp


lemma unescaped_low: "uriUnescaped c \<Longrightarrow> c < 0xD800"
  by (auto simp: uriUnescaped_def js_def word_less_nat_alt word_le_nat_alt)

lemma head_unescaped: "uriUnescaped c \<Longrightarrow> replace5 [c] = chunk (unat c)"
  by (auto simp: replace5_single chunk_def uriUnescaped_unat code_unit_cases unreserved_def)

lemma head_escaped: "\<not> uriUnescaped c \<Longrightarrow> chunk (unat c) = escape (unat c)"
  by (simp add: chunk_def uriUnescaped_unat)

lemma chunk_pair: "0x10000 \<le> v \<Longrightarrow> chunk v = escape v"
  by (simp add: chunk_def unreserved_def)

lemma urlEncode_code_points:
  "urlEncode s = (case code_points s of Inl e \<Rightarrow> Inl e | Inr vs \<Rightarrow> Inr (concat (map chunk vs)))"
proof (induction s rule: encodeURIComponent.induct)
  case 1
  show ?case by (simp add: urlEncode_replace5 replace5_Nil)
next
  case (2 c cs)
  consider (unescaped) "uriUnescaped c"
    | (trail) "\<not> uriUnescaped c" "0xDC00 \<le> c \<and> c \<le> 0xDFFF"
    | (single) "\<not> uriUnescaped c" "\<not> (0xDC00 \<le> c \<and> c \<le> 0xDFFF)" "c < 0xD800 \<or> 0xDBFF < c"
    | (lead) "\<not> uriUnescaped c" "\<not> (0xDC00 \<le> c \<and> c \<le> 0xDFFF)" "\<not> (c < 0xD800 \<or> 0xDBFF < c)"
    by blast
  then show ?case
  proof cases
    case unescaped
    then have low: "c < 0xD800" by (rule unescaped_low)
    then have nt: "\<not> (0xDC00 \<le> c \<and> c \<le> 0xDFFF)"
      by (auto simp: word_less_nat_alt word_le_nat_alt)
    have "replace5 (c # r) = chunk (unat c) @ replace5 r" for r
      using replace5_Cons [of c r] by (simp add: head_unescaped [OF unescaped])
    then show ?thesis
      using "2.IH"(1) [OF unescaped] unescaped low nt
      by (auto simp: urlEncode_replace5 split: sum.splits)
  next
    case trail
    then show ?thesis by (simp add: urlEncode_replace5)
  next
    case single
    have u: "unat c < 0x110000" using code_unit_cases(1) [of c] by simp
    have "replace5 (escape (unat c) @ r) = chunk (unat c) @ replace5 r" for r
      by (simp add: replace5_append replace5_escape [OF u] head_escaped [OF single(1)])
    then show ?thesis
      using "2.IH"(2) [OF single] single
      by (auto simp: urlEncode_replace5 split: sum.splits)
  next
    case lead
    show ?thesis
    proof (cases cs)
      case Nil
      with lead show ?thesis by (simp add: urlEncode_replace5)
    next
      case (Cons d ds)
      show ?thesis
      proof (cases "d < 0xDC00 \<or> 0xDFFF < d")
        case True
        with lead Cons show ?thesis by (simp add: urlEncode_replace5)
      next
        case False
        let ?v = "(unat c - 0xD800) * 0x400 + (unat d - 0xDC00) + 0x10000"
        have "replace5 (escape ?v @ r) = chunk ?v @ replace5 r" for r
          using pair_bounds [OF lead(3) False]
          by (simp add: replace5_append replace5_escape chunk_pair)
        then show ?thesis
          using "2.IH"(3) [OF lead Cons False] lead Cons False
          by (auto simp: urlEncode_replace5 split: sum.splits)
      qed
    qed
  qed
qed

















lemma encodable_code_points:
  "encodable s = (case code_points s of Inl e \<Rightarrow> False | Inr vs \<Rightarrow> True)"
  by (simp add: encodable_def urlEncode_code_points split: sum.splits)

section \<open>Changing one value\<close>





text \<open>
  Claim C3, amended. In both the string to sign and the query string, every pair is the
  key as it is, \<open>=\<close>, and the value with \<open>urlEncode\<close> applied. The keys are not
  encoded. \<open>urlEncode\<close> is the URI-component percent-encoding with \<open>*\<close>, \<open>(\<close>,
  \<open>)\<close>, \<open>'\<close> and \<open>!\<close> forced to \<open>%2A\<close>, \<open>%28\<close>, \<open>%29\<close>, \<open>%27\<close> and
  \<open>%21\<close>: it copies the code points that are letters, digits, \<open>-\<close>, \<open>_\<close>, \<open>.\<close> or
  \<open>~\<close> and writes the UTF-8 octets of every other code point as \<open>%XX\<close>.
\<close>

theorem values_encoded_keys_verbatim:
  "getStringToSign r ep =
     (if list_all (\<lambda>k. encodable (to_string (obj_get (collect_input (parameters r)) k)))
           (sort (obj_keys (collect_input (parameters r))))
      then Inr (join [0x0A] [js ''POST'', host (credentials r), ep,
             join (js ''&'')
               (map (\<lambda>k. k @ js ''='' @ encoded (to_string (obj_get (collect_input (parameters r)) k)))
                 (sort (obj_keys (collect_input (parameters r)))))])
      else Inl URIError) \<and>
   getQueryString r =
     (if list_all (\<lambda>p. encodable (snd p)) (collect_input (parameters r)) then
        Inr (join (js ''&'') (map (\<lambda>p. fst p @ js ''='' @ encoded (snd p)) (collect_input (parameters r))))
      else Inl URIError) \<and>
   map urlEncode [js ''*'', js ''('', js '')'', [0x27], js ''!''] =
     [Inr (js ''%2A''), Inr (js ''%28''), Inr (js ''%29''), Inr (js ''%27''), Inr (js ''%21'')] \<and>
   urlEncode s = (case code_points s of Inl e \<Rightarrow> Inl e | Inr vs \<Rightarrow> Inr (concat (map chunk vs)))"
proof -
  have "map urlEncode [js ''*'', js ''('', js '')'', [0x27], js ''!''] =
     [Inr (js ''%2A''), Inr (js ''%28''), Inr (js ''%29''), Inr (js ''%27''), Inr (js ''%21'')]"
    by (simp add: eval_defs)
  then show ?thesis
    using getStringToSign_eq [of r ep] getQueryString_eq [of r] urlEncode_code_points [of s]
    by (simp only: simp_thms)
qed

section \<open>The order of the keys\<close>

text \<open>
  \<open>sort()\<close> compares the keys by their UTF-16 code units. For two code points below
  \<open>0x10000\<close> the UTF-8 encodings differ first at an octet that is smaller for the smaller
  code point, so that strings without surrogates are ordered by their octets as they are by
  their code units.
\<close>

lemma digits2:
  assumes "a < (b::nat)"
  shows "a div 0x40 < b div 0x40 \<or> a div 0x40 = b div 0x40 \<and> a mod 0x40 < b mod 0x40"
proof -
  have "a mod 0x40 < 0x40" "b mod 0x40 < 0x40"
    by simp_all
  then show ?thesis
    using div_mult_mod_eq [of a "0x40"] div_mult_mod_eq [of b "0x40"] assms by linarith
qed

lemma digits3:
  assumes "a < (b::nat)"
  shows "a div 0x1000 < b div 0x1000 \<or>
    a div 0x1000 = b div 0x1000 \<and> a div 0x40 mod 0x40 < b div 0x40 mod 0x40 \<or>
    a div 0x1000 = b div 0x1000 \<and> a div 0x40 mod 0x40 = b div 0x40 mod 0x40 \<and> a mod 0x40 < b mod 0x40"
proof -
  have q: "v div 0x1000 = v div 0x40 div 0x40" for v :: nat
    using div_mult2_eq [of v "0x40" "0x40"] by simp
  from digits2 [OF assms] show ?thesis
  proof
    assume "a div 0x40 < b div 0x40"
    from digits2 [OF this] show ?thesis
      by (simp only: q) blast
  next
    assume "a div 0x40 = b div 0x40 \<and> a mod 0x40 < b mod 0x40"
    then show ?thesis
      by (simp only: q) simp
  qed
qed

lemma utf8_less:
  assumes "a < b" and "b < 0x10000"
  shows "\<exists>u x y w z. utf8 a = u @ x # w \<and> utf8 b = u @ y # z \<and> x < y"
proof -
  have lead2: "v div 0x40 < 0x20" if "v < 0x800" for v :: nat
    using that by simp
  have lead3: "v div 0x1000 < 0x10" if "v < 0x10000" for v :: nat
    using that by simp
  consider (one) "b < 0x80" | (two) "0x80 \<le> b" "b < 0x800" | (three) "0x800 \<le> b"
    by linarith
  then show ?thesis
  proof cases
    case one
    with assms have "utf8 a = [] @ a # []" "utf8 b = [] @ b # []"
      by (simp_all add: utf8_def)
    with assms(1) show ?thesis by blast
  next
    case two
    show ?thesis
    proof (cases "a < 0x80")
      case True
      with two have "utf8 a = [] @ a # []" "utf8 b = [] @ (0xC0 + b div 0x40) # [0x80 + b mod 0x40]"
        "a < 0xC0 + b div 0x40"
        by (simp_all add: utf8_def)
      then show ?thesis by blast
    next
      case False
      with two assms have a: "utf8 a = [0xC0 + a div 0x40, 0x80 + a mod 0x40]"
        and b: "utf8 b = [0xC0 + b div 0x40, 0x80 + b mod 0x40]"
        by (simp_all add: utf8_def)
      from digits2 [OF assms(1)] show ?thesis
      proof
        assume "a div 0x40 < b div 0x40"
        then have "utf8 a = [] @ (0xC0 + a div 0x40) # [0x80 + a mod 0x40]"
          "utf8 b = [] @ (0xC0 + b div 0x40) # [0x80 + b mod 0x40]"
          "0xC0 + a div 0x40 < 0xC0 + b div 0x40"
          by (simp_all add: a b)
        then show ?thesis by blast
      next
        assume "a div 0x40 = b div 0x40 \<and> a mod 0x40 < b mod 0x40"
        then have "utf8 a = [0xC0 + a div 0x40] @ (0x80 + a mod 0x40) # []"
          "utf8 b = [0xC0 + a div 0x40] @ (0x80 + b mod 0x40) # []"
          "0x80 + a mod 0x40 < 0x80 + b mod 0x40"
          by (simp_all add: a b)
        then show ?thesis by blast
      qed
    qed
  next
    case three
    with assms have b: "utf8 b = [0xE0 + b div 0x1000, 0x80 + b div 0x40 mod 0x40, 0x80 + b mod 0x40]"
      by (simp add: utf8_def)
    consider (a1) "a < 0x80" | (a2) "0x80 \<le> a" "a < 0x800" | (a3) "0x800 \<le> a"
      by linarith
    then show ?thesis
    proof cases
      case a1
      then have "utf8 a = [] @ a # []"
        "utf8 b = [] @ (0xE0 + b div 0x1000) # [0x80 + b div 0x40 mod 0x40, 0x80 + b mod 0x40]"
        "a < 0xE0 + b div 0x1000"
        using three assms(2) by (simp_all add: utf8_def)
      then show ?thesis by blast
    next
      case a2
      then have "utf8 a = [] @ (0xC0 + a div 0x40) # [0x80 + a mod 0x40]"
        "utf8 b = [] @ (0xE0 + b div 0x1000) # [0x80 + b div 0x40 mod 0x40, 0x80 + b mod 0x40]"
        "0xC0 + a div 0x40 < 0xE0 + b div 0x1000"
        using lead2 [of a] three assms(2) by (simp_all add: utf8_def)
      then show ?thesis by blast
    next
      case a3
      with assms have a: "utf8 a = [0xE0 + a div 0x1000, 0x80 + a div 0x40 mod 0x40, 0x80 + a mod 0x40]"
        by (simp add: utf8_def)
      from digits3 [OF assms(1)] consider
        (d2) "a div 0x1000 < b div 0x1000"
        | (d1) "a div 0x1000 = b div 0x1000" "a div 0x40 mod 0x40 < b div 0x40 mod 0x40"
        | (d0) "a div 0x1000 = b div 0x1000" "a div 0x40 mod 0x40 = b div 0x40 mod 0x40" "a mod 0x40 < b mod 0x40"
        by blast
      then show ?thesis
      proof cases
        case d2
        then have "utf8 a = [] @ (0xE0 + a div 0x1000) # [0x80 + a div 0x40 mod 0x40, 0x80 + a mod 0x40]"
          "utf8 b = [] @ (0xE0 + b div 0x1000) # [0x80 + b div 0x40 mod 0x40, 0x80 + b mod 0x40]"
          "0xE0 + a div 0x1000 < 0xE0 + b div 0x1000"
          by (simp_all add: a b)
        then show ?thesis by blast
      next
        case d1
        then have "utf8 a = [0xE0 + a div 0x1000] @ (0x80 + a div 0x40 mod 0x40) # [0x80 + a mod 0x40]"
          "utf8 b = [0xE0 + a div 0x1000] @ (0x80 + b div 0x40 mod 0x40) # [0x80 + b mod 0x40]"
          "0x80 + a div 0x40 mod 0x40 < 0x80 + b div 0x40 mod 0x40"
          by (simp_all add: a b)
        then show ?thesis by blast
      next
        case d0
        then have "utf8 a = [0xE0 + a div 0x1000, 0x80 + a div 0x40 mod 0x40] @ (0x80 + a mod 0x40) # []"
          "utf8 b = [0xE0 + a div 0x1000, 0x80 + a div 0x40 mod 0x40] @ (0x80 + b mod 0x40) # []"
          "0x80 + a mod 0x40 < 0x80 + b mod 0x40"
          by (simp_all add: a b)
        then show ?thesis by blast
      qed
    qed
  qed
qed

lemma utf8_not_Nil: "utf8 v \<noteq> []"
  by (simp add: utf8_def)

lemma concat_utf8_less:
  assumes "(xs, ys) \<in> lexord {(u, v). u < v}" and "\<forall>v\<in>set ys. v < 0x10000"
  shows "(concat (map utf8 xs), concat (map utf8 ys)) \<in> lexord {(u, v). u < v}"
proof -
  from assms(1) consider (prefix) a v where "ys = xs @ a # v"
    | (differ) u a b v w where "a < b" "xs = u @ a # v" "ys = u @ b # w"
    unfolding lexord_def by blast
  then show ?thesis
  proof cases
    case prefix
    obtain c cs where "utf8 a = c # cs"
      using utf8_not_Nil [of a] by (cases "utf8 a") auto
    then have "concat (map utf8 ys) = concat (map utf8 xs) @ c # (cs @ concat (map utf8 v))"
      by (simp add: prefix)
    then show ?thesis
      by (simp add: lexord_append_rightI)
  next
    case differ
    with assms(2) have "b < 0x10000" by simp
    with differ(1) obtain p x y s t where e: "utf8 a = p @ x # s" "utf8 b = p @ y # t" "x < y"
      using utf8_less by blast
    have "concat (map utf8 xs) = (concat (map utf8 u) @ p) @ x # (s @ concat (map utf8 v))"
      "concat (map utf8 ys) = (concat (map utf8 u) @ p) @ y # (t @ concat (map utf8 w))"
      by (simp_all add: differ e)
    with e(3) show ?thesis
      by (simp only: lexord_append_leftI lexord_cons_cons mem_Collect_eq case_prod_conv simp_thms)
  qed
qed

lemma code_points_plain:
  "\<forall>c\<in>set s. c < 0xD800 \<or> 0xDFFF < c \<Longrightarrow> code_points s = Inr (map unat s)"
  by (induction s) (auto simp: word_less_nat_alt word_le_nat_alt)

lemma unat_lexord:
  fixes a b :: jstring
  assumes "(a, b) \<in> lexord {(u, v). u < v}"
  shows "(map unat a, map unat b) \<in> lexord {(u, v). u < v}"
proof -
  from assms consider (prefix) c v where "b = a @ c # v"
    | (differ) u c d v w where "c < d" "a = u @ c # v" "b = u @ d # w"
    unfolding lexord_def by blast
  then show ?thesis
  proof cases
    case prefix
    then show ?thesis by (simp add: lexord_append_rightI)
  next
    case differ
    then show ?thesis by (simp add: lexord_append_leftI word_less_nat_alt)
  qed
qed

lemma utf8_octets_less:
  fixes a b :: jstring
  assumes "(a, b) \<in> lexord {(u, v). u < v}"
    and "\<forall>c\<in>set a. c < 0xD800 \<or> 0xDFFF < c" and "\<forall>c\<in>set b. c < 0xD800 \<or> 0xDFFF < c"
  shows "(utf8_octets a, utf8_octets b) \<in> lexord {(u, v). u < v}"
proof -
  have "unat c < 0x10000" for c :: code_unit
    using unsigned_less [of c, where 'a = nat] by simp
  then have "\<forall>v\<in>set (map unat b). v < 0x10000"
    by simp
  with unat_lexord [OF assms(1)] show ?thesis
    by (simp only: utf8_octets_def code_points_plain [OF assms(2)] code_points_plain [OF assms(3)]
        sum.case concat_utf8_less)
qed

text \<open>
  Claim C1, amended. The string to sign of a request is the four segments \<open>POST\<close>, the
  host of the credentials, the endpoint path and the pairs, joined by single newline
  characters; the pairs are \<open>key=value\<close> for every key of the canonical mapping, the value
  percent-encoded, joined by \<open>&\<close>. The keys are taken in strictly ascending lexicographic
  order of their UTF-16 code units; the order is that of the set of keys, whatever the order
  in which the parameters were inserted. The canonical mapping gives a key the value of the
  last parameter that serializes it. When no key holds a surrogate code unit, this is also
  the strictly ascending byte-wise order of the UTF-8 encodings of the keys. (No string is
  produced, and \<open>URIError\<close> is raised, exactly when a value holds a surrogate without its
  partner.)
\<close>

theorem getStringToSign_segments:
  "let input = collect_input (parameters r);
       ks = sorted_list_of_set (\<Union>p\<in>set (parameters r). fst ` set (serialize p))
   in getStringToSign r ep =
        (if list_all (\<lambda>k. encodable (to_string (obj_get input k))) ks
         then Inr (join [0x0A] [js ''POST'', host (credentials r), ep,
                join (js ''&'') (map (\<lambda>k. k @ js ''='' @ encoded (to_string (obj_get input k))) ks)])
         else Inl URIError) \<and>
      sorted_wrt (\<lambda>a b. (a, b) \<in> lexord {(u, v). u < v}) ks \<and>
      list_all (\<lambda>k. obj_get input k \<noteq> None) ks \<and>
      obj_get input = map_of (concat (map serialize (rev (parameters r)))) \<and>
      (list_all (list_all (\<lambda>c. c < 0xD800 \<or> 0xDFFF < c)) ks \<longrightarrow>
         sorted_wrt (\<lambda>a b. (utf8_octets a, utf8_octets b) \<in> lexord {(u, v). u < v}) ks)"
proof -
  let ?ps = "parameters r"
  let ?K = "\<Union>p\<in>set ?ps. fst ` set (serialize p)"
  have "sorted_wrt (<) (sorted_list_of_set ?K)"
    by (rule strict_sorted_list_of_set)
  then have ord: "sorted_wrt (\<lambda>a b. (a, b) \<in> lexord {(u, v). u < v}) (sorted_list_of_set ?K)"
    by (rule sorted_wrt_mono_rel [rotated]) (simp add: list_less_def)
  have "k \<in> fst ` set (collect_input ?ps)" if "k \<in> set (sorted_list_of_set ?K)" for k
    using that by (simp add: keys_collect_input)
  then have "obj_get (collect_input ?ps) k \<noteq> None" if "k \<in> set (sorted_list_of_set ?K)" for k
    using that unfolding obj_get_def by (metis map_of_eq_None_iff)
  then have def: "list_all (\<lambda>k. obj_get (collect_input ?ps) k \<noteq> None) (sorted_list_of_set ?K)"
    by (simp add: list_all_iff)
  have bytes: "sorted_wrt (\<lambda>a b. (utf8_octets a, utf8_octets b) \<in> lexord {(u, v). u < v})
      (sorted_list_of_set ?K)"
    if plain: "list_all (list_all (\<lambda>c. c < 0xD800 \<or> 0xDFFF < c)) (sorted_list_of_set ?K)"
  proof (rule sorted_wrt_mono_rel [OF _ ord])
    fix a b :: jstring
    assume "a \<in> set (sorted_list_of_set ?K)" and "b \<in> set (sorted_list_of_set ?K)"
    with plain have "\<forall>c\<in>set a. c < 0xD800 \<or> 0xDFFF < c" "\<forall>c\<in>set b. c < 0xD800 \<or> 0xDFFF < c"
      unfolding list_all_iff by blast+
    moreover assume "(a, b) \<in> lexord {(u, v). u < v}"
    ultimately show "(utf8_octets a, utf8_octets b) \<in> lexord {(u, v). u < v}"
      by (intro utf8_octets_less)
  qed
  then have bytes: "list_all (list_all (\<lambda>c. c < 0xD800 \<or> 0xDFFF < c)) (sorted_list_of_set ?K) \<longrightarrow>
      sorted_wrt (\<lambda>a b. (utf8_octets a, utf8_octets b) \<in> lexord {(u, v). u < v}) (sorted_list_of_set ?K)"
    by (rule impI)
  show ?thesis
    unfolding Let_def
    using ord def bytes obj_get_collect_input [of ?ps] getStringToSign_eq [of r ep]
    by (simp only: sort_keys_collect_input simp_thms)
qed

text \<open>Claim C1, amended: the theorem at the example request, whose keys are ASCII.\<close>

theorem getStringToSign_segments_witness:
  "sorted_list_of_set (\<Union>p\<in>set (parameters request0). fst ` set (serialize p)) =
     [js ''AWSAccessKeyId'', js ''SignatureMethod'', js ''SignatureVersion'', js ''Timestamp''] \<and>
   list_all (list_all (\<lambda>c. c < 0xD800 \<or> 0xDFFF < c))
     [js ''AWSAccessKeyId'', js ''SignatureMethod'', js ''SignatureVersion'', js ''Timestamp''] \<and>
   sorted_wrt (\<lambda>a b. (utf8_octets a, utf8_octets b) \<in> lexord {(u, v). u < v})
     [js ''AWSAccessKeyId'', js ''SignatureMethod'', js ''SignatureVersion'', js ''Timestamp''] \<and>
   getStringToSign request0 (js ''/'') =
     Inr (js ''POST'' @ [0x0A] @ js ''example.test'' @ [0x0A] @ js ''/'' @ [0x0A] @
       js ''AWSAccessKeyId=AKID&SignatureMethod=HmacSHA256&SignatureVersion=2&Timestamp=2020-01-01T00%3A00%3A00.000Z'')"
proof -
  have ks: "sorted_list_of_set (\<Union>p\<in>set (parameters request0). fst ` set (serialize p)) =
      [js ''AWSAccessKeyId'', js ''SignatureMethod'', js ''SignatureVersion'', js ''Timestamp'']"
    unfolding sort_keys_collect_input [symmetric]
    by (simp add: request0_def creds0_def eval_defs)
  have plain: "list_all (list_all (\<lambda>c. c < 0xD800 \<or> 0xDFFF < c))
      [js ''AWSAccessKeyId'', js ''SignatureMethod'', js ''SignatureVersion'', js ''Timestamp'']"
    by (simp add: js_def)
  have s: "getStringToSign request0 (js ''/'') =
     Inr (js ''POST'' @ [0x0A] @ js ''example.test'' @ [0x0A] @ js ''/'' @ [0x0A] @
       js ''AWSAccessKeyId=AKID&SignatureMethod=HmacSHA256&SignatureVersion=2&Timestamp=2020-01-01T00%3A00%3A00.000Z'')"
    by (simp add: request0_def creds0_def eval_defs)
  show ?thesis
    using getStringToSign_segments [of request0 "js ''/''"] plain s
    unfolding Let_def ks by (simp only: simp_thms)
qed

text \<open>
  Claim C1 says that the keys are in byte-wise order. The keys \<open>U+FF5E\<close> and \<open>U+1F600\<close>
  are the code units \<open>FF5E\<close> and \<open>D83D DE00\<close>, and the octets \<open>EF BD 9E\<close> and
  \<open>F0 9F 98 80\<close>: byte-wise the first key is the smaller one, but the string to sign has the
  second key before it.
\<close>

theorem code_unit_order_counterexample:
  "getStringToSign (addParam (addParam request0 (StringParameter [0xFF5E] (js ''1'')))
       (StringParameter [0xD83D, 0xDE00] (js ''2''))) (js ''/'') =
     Inr (js ''POST'' @ [0x0A] @ js ''example.test'' @ [0x0A] @ js ''/'' @ [0x0A] @
       js ''AWSAccessKeyId=AKID&SignatureMethod=HmacSHA256&SignatureVersion=2&Timestamp=2020-01-01T00%3A00%3A00.000Z&'' @
       [0xD83D, 0xDE00] @ js ''=2&'' @ [0xFF5E] @ js ''=1'') \<and>
   utf8_octets [0xFF5E] = [0xEF, 0xBD, 0x9E] \<and>
   utf8_octets [0xD83D, 0xDE00] = [0xF0, 0x9F, 0x98, 0x80] \<and>
   (utf8_octets [0xFF5E], utf8_octets [0xD83D, 0xDE00]) \<in> lexord {(u, v). u < v} \<and>
   (utf8_octets [0xD83D, 0xDE00], utf8_octets [0xFF5E]) \<notin> lexord {(u, v). u < v}"
  by (simp add: request0_def creds0_def eval_defs utf8_octets_def)







section \<open>Base64 is injective\<close>















lemma string_to_sign_action:
  "getStringToSign (request0\<lparr>parameters := parameters request0 @
       [StringParameter (js ''Action'') (js ''ListOrders'')] @
       [StringParameter (js ''Version'') (js ''2013-09-01'')]\<rparr>) (endpoint request0) =
     Inr (js ''POST'' @ [0x0A] @ js ''example.test'' @ [0x0A] @ js ''/'' @ [0x0A] @
       js ''AWSAccessKeyId=AKID&Action=ListOrders&SignatureMethod=HmacSHA256&SignatureVersion=2&Timestamp=2020-01-01T00%3A00%3A00.000Z&Version=2013-09-01'')"
  by (simp add: request0_def creds0_def eval_defs)

lemma string_to_sign_items:
  "getStringToSign (request0\<lparr>parameters := parameters request0 @
       [StringParameter (js ''Action'') (js ''ListOrderItems'')] @
       [StringParameter (js ''Version'') (js ''2013-09-01'')]\<rparr>) (endpoint request0) =
     Inr (js ''POST'' @ [0x0A] @ js ''example.test'' @ [0x0A] @ js ''/'' @ [0x0A] @
       js ''AWSAccessKeyId=AKID&Action=ListOrderItems&SignatureMethod=HmacSHA256&SignatureVersion=2&Timestamp=2020-01-01T00%3A00%3A00.000Z&Version=2013-09-01'')"
  by (simp add: request0_def creds0_def eval_defs)

text \<open>
  Why the signature is stated through the digests: under a digest function with
  collisions, here the constant one, the two different strings to sign of the example get
  the same signature.
\<close>

lemma colliding_digest_same_signature:
  "getStringToSign (request0\<lparr>parameters := parameters request0 @
       [StringParameter (js ''Action'') (js ''ListOrderItems'')] @
       [StringParameter (js ''Version'') (js ''2013-09-01'')]\<rparr>) (endpoint request0) \<noteq>
   getStringToSign (request0\<lparr>parameters := parameters request0 @
       [StringParameter (js ''Action'') (js ''ListOrders'')] @
       [StringParameter (js ''Version'') (js ''2013-09-01'')]\<rparr>) (endpoint request0) \<and>
   getSignature hmac0 (request0\<lparr>parameters := parameters request0 @
       [StringParameter (js ''Action'') (js ''ListOrderItems'')] @
       [StringParameter (js ''Version'') (js ''2013-09-01'')]\<rparr>) =
   getSignature hmac0 (request0\<lparr>parameters := parameters request0 @
       [StringParameter (js ''Action'') (js ''ListOrders'')] @
       [StringParameter (js ''Version'') (js ''2013-09-01'')]\<rparr>)"
proof -
  have "getSignature hmac0 (request0\<lparr>parameters := ps\<rparr>) =
      (case getStringToSign (request0\<lparr>parameters := ps\<rparr>) (endpoint request0) of
         Inl e \<Rightarrow> Inl e
       | Inr strToSign \<Rightarrow> Inr (js ''AAECAwQFBgcICQoLDA0ODxAREhMUFRYXGBkaGxwdHh8=''))" for ps
    by (simp add: getSignature_eq signature0 split: sum.splits)
  then show ?thesis
    by (simp only: string_to_sign_action string_to_sign_items sum.case) (simp add: js_def)
qed



section \<open>The outcome of an exchange\<close>

text \<open>
  What the two callbacks do in every case: a transport error when \<open>err\<close> is set, a parse
  error when the parser reports one, the report of the remote service when the parsed
  body has the property \<open>ErrorResponse\<close> and the reads of \<open>Error\<close> and \<open>Message\<close>
  succeed, and the parsed body otherwise.
\<close>

lemma on_parsed_parse_error:
  "truthy err \<Longrightarrow>
   on_parsed err result =
     Inr (Callback (Some \<lparr>origin = js ''XMLParsing'', message = err, metadata = JUndefined\<rparr>) JUndefined)"
  by (simp add: on_parsed_def)

lemma on_parsed_success:
  "\<not> truthy err \<Longrightarrow> \<not> has result (js ''ErrorResponse'') \<Longrightarrow>
   on_parsed err result = Inr (Callback None result)"
  by (simp add: on_parsed_def)

lemma on_parsed_api_error:
  assumes "\<not> truthy err" and "result = JObject ps"
    and "map_of ps (js ''ErrorResponse'') = Some (JObject es)"
    and "map_of es (js ''Error'') = Some payload" and "get payload (js ''Message'') = Inr msg"
  shows "on_parsed err result =
     Inr (Callback (Some \<lparr>origin = js ''MWS'', message = msg, metadata = payload\<rparr>) JUndefined)"
proof -
  have "has result (js ''ErrorResponse'')"
    using assms(2,3) by (auto dest: map_of_SomeD intro: rev_image_eqI)
  then show ?thesis
    using assms by (simp add: on_parsed_def)
qed

lemma on_response_transport:
  "truthy err \<Longrightarrow>
   on_response xmlParse err httpResponse body =
     Inr (Callback (Some \<lparr>origin = js ''PostRequest'', message = err, metadata = httpResponse\<rparr>)
            JUndefined)"
  by (simp add: on_response_def)

text \<open>
  Claim C8. The body \<open><ErrorResponse><Error><Message>Bad</Message></Error></ErrorResponse>\<close>
  yields the error of the remote service with the message \<open>Bad\<close> and the \<open>Error\<close>
  element as metadata. A body whose root is \<open>ErrorResponse\<close> without an \<open>Error\<close>
  child, such as \<open><ErrorResponse><Foo>x</Foo></ErrorResponse>\<close>, yields no outcome: the
  read of \<open>Message\<close> from \<open>undefined\<close> raises \<open>TypeError\<close> before \<open>callback\<close> is
  called.
\<close>

theorem error_report_outcomes:
  "on_parsed JNull
     (JObject [(js ''ErrorResponse'',
        JObject [(js ''Error'', JObject [(js ''Message'', JString (js ''Bad''))])])]) =
     Inr (Callback
       (Some \<lparr>origin = js ''MWS'', message = JString (js ''Bad''),
               metadata = JObject [(js ''Message'', JString (js ''Bad''))]\<rparr>) JUndefined) \<and>
   on_parsed JNull (JObject [(js ''ErrorResponse'', JObject [(js ''Foo'', JString (js ''x''))])]) =
     Inl TypeError \<and>
   (xmlParse body = (JNull, JObject [(js ''ErrorResponse'', JObject [(js ''Foo'', JString (js ''x''))])]) \<longrightarrow>
      on_response xmlParse JNull httpResponse body = Inl TypeError)"
  by (simp add: on_parsed_def on_response_def js_def)

text \<open>Claim C8: the last part at a parser that returns this object for every body.\<close>

theorem error_report_outcomes_witness:
  "(\<lambda>body. (JNull, JObject [(js ''ErrorResponse'', JObject [(js ''Foo'', JString (js ''x''))])]))
      (JString (js ''<ErrorResponse><Foo>x</Foo></ErrorResponse>'')) =
     (JNull, JObject [(js ''ErrorResponse'', JObject [(js ''Foo'', JString (js ''x''))])]) \<and>
   on_response (\<lambda>body. (JNull, JObject [(js ''ErrorResponse'', JObject [(js ''Foo'', JString (js ''x''))])]))
     JNull JUndefined (JString (js ''<ErrorResponse><Foo>x</Foo></ErrorResponse>'')) = Inl TypeError"
  using error_report_outcomes
    [of "\<lambda>body. (JNull, JObject [(js ''ErrorResponse'', JObject [(js ''Foo'', JString (js ''x''))])])"
      "JString (js ''<ErrorResponse><Foo>x</Foo></ErrorResponse>'')" JUndefined]
  by simp

section \<open>The encoding of a literal\<close>

text \<open>
  Claim C9. The URL-encoding helper applied to the literal \<open>a*b(c)d'e!f\<close> returns
  exactly \<open>a%2Ab%28c%29d%27e%21f\<close>: the five characters that \<open>encodeURIComponent\<close>
  leaves alone are replaced by their escapes, the letters are kept.
\<close>

theorem urlEncode_literal:
  "urlEncode (js ''a*b(c)d'e!f'') = Inr (js ''a%2Ab%28c%29d%27e%21f'')"
  by (simp add: urlEncode_def js_def uriUnescaped_def replace_def)

end
